theory Spec2Isabelle
  imports Main
begin

section \<open>Python values: exceptions, numpy arrays, dictionaries\<close>

text \<open>
  The exceptions that \<^verbatim>\<open>flow.py\<close> raises itself (\<open>ValueError\<close>, \<open>UserWarning\<close>,
  \<open>RuntimeError\<close>) and those raised by the operations it calls: numpy indexing
  (\<open>IndexError\<close>, \<open>OverflowError\<close>), dictionary lookup (\<open>KeyError\<close>), \<^verbatim>\<open>next\<close> on an exhausted iterator
  (\<open>StopIteration\<close>), networkx lookups of absent nodes and edges (\<open>NetworkXError\<close>),
  a topological sort of a cyclic digraph (\<open>NetworkXUnfeasible\<close>) and a method call on
  \<^verbatim>\<open>None\<close> (\<open>AttributeError\<close>).
\<close>

datatype error = ValueError | UserWarning | RuntimeError | IndexError | OverflowError | KeyError
  | StopIteration | NetworkXError | NetworkXUnfeasible | AttributeError

text \<open>
  The outcome of running a piece of code: it returns a value, raises, or has not returned
  within the given number of nested calls and loop rounds (\<open>OutOfFuel\<close>).
\<close>

datatype 'a outcome = Return 'a | Raise error | OutOfFuel

fun obind :: "'a outcome \<Rightarrow> ('a \<Rightarrow> 'b outcome) \<Rightarrow> 'b outcome" where
  "obind (Return x) k = k x"
| "obind (Raise e) k = Raise e"
| "obind OutOfFuel k = OutOfFuel"

text \<open>
  A one-dimensional numpy array of length \<open>n\<close> accepts the indices \<open>-n \<le> i < n\<close>; a negative
  index counts from the end. Of the other indices, those that fit a signed 64-bit integer
  raise \<open>IndexError\<close>; numpy cannot convert the rest, and raises \<open>OverflowError\<close>. (numpy
  converts first and compares then; an array never has \<^verbatim>\<open>2**63\<close> cells, so the order of the two
  tests makes no difference.)
\<close>

definition np_index :: "nat \<Rightarrow> int \<Rightarrow> nat outcome" where
  "np_index n i =
     (if 0 \<le> i \<and> i < int n then Return (nat i)
      else if - int n \<le> i \<and> i < 0 then Return (nat (i + int n))
      else if - (2 ^ 63) \<le> i \<and> i < 2 ^ 63 then Raise IndexError
      else Raise OverflowError)"

definition np_get :: "'a list \<Rightarrow> int \<Rightarrow> 'a outcome" where
  "np_get xs i = obind (np_index (length xs) i) (\<lambda>k. Return (xs ! k))"

definition np_set :: "'a list \<Rightarrow> int \<Rightarrow> 'a \<Rightarrow> 'a list outcome" where
  "np_set xs i x = obind (np_index (length xs) i) (\<lambda>k. Return (xs[k := x]))"

definition np_zeros :: "nat \<Rightarrow> nat list" where
  "np_zeros n = replicate n 0"

text \<open>A dictionary with integer keys, as an association list read with \<^const>\<open>map_of\<close>.\<close>

type_synonym 'v dict = "(int \<times> 'v) list"

fun dict_set :: "'v dict \<Rightarrow> int \<Rightarrow> 'v \<Rightarrow> 'v dict" where
  "dict_set [] k v = [(k, v)]"
| "dict_set ((k', v') # d) k v = (if k' = k then (k, v) # d else (k', v') # dict_set d k v)"

definition dict_get :: "'v dict \<Rightarrow> int \<Rightarrow> 'v outcome" where
  "dict_get d k = (case map_of d k of None \<Rightarrow> Raise KeyError | Some v \<Rightarrow> Return v)"

text \<open>\<^verbatim>\<open>next(it)\<close> on a fresh iterator over \<open>xs\<close>.\<close>

definition next_iter :: "'a list \<Rightarrow> 'a outcome" where
  "next_iter xs = (case xs of [] \<Rightarrow> Raise StopIteration | x # _ \<Rightarrow> Return x)"

text \<open>Insertion into an insertion-ordered set (the keys of a Python dictionary).\<close>

definition ins :: "'a \<Rightarrow> 'a list \<Rightarrow> 'a list" where
  "ins x xs = (if x \<in> set xs then xs else xs @ [x])"

fun uniq :: "'a list \<Rightarrow> 'a list \<Rightarrow> 'a list" where
  "uniq acc [] = acc"
| "uniq acc (x # xs) = uniq (ins x acc) xs"

section \<open>networkx graphs\<close>

text \<open>
  An undirected \<^verbatim>\<open>nx.Graph\<close>, given by the nodes and the edges it was built from
  (\<^verbatim>\<open>add_nodes_from\<close>, then \<^verbatim>\<open>add_edges_from\<close>). Nodes and adjacency lists keep
  insertion order; an edge adds its endpoints to the nodes. \<^verbatim>\<open>neighbors\<close> raises for a
  vertex that is not in the graph, and returns an iterator over the adjacency otherwise.
\<close>

record ugraph =
  ug_nodes :: "int list"
  ug_edges :: "(int \<times> int) list"

definition nodes :: "ugraph \<Rightarrow> int list" where
  "nodes g = uniq [] (ug_nodes g @ concat (map (\<lambda>(a, b). [a, b]) (ug_edges g)))"

definition adj :: "ugraph \<Rightarrow> int \<Rightarrow> int list" where
  "adj g v = uniq [] (concat (map (\<lambda>(a, b). (if a = v then [b] else []) @ (if b = v \<and> a \<noteq> v then [a] else []))
                               (ug_edges g)))"

definition neighbors :: "ugraph \<Rightarrow> int \<Rightarrow> int list outcome" where
  "neighbors g v = (if v \<in> set (nodes g) then Return (adj g v) else Raise NetworkXError)"

text \<open>
  A directed \<^verbatim>\<open>nx.DiGraph\<close>: its nodes, and its edges in insertion order, so that the
  predecessors and successors of a node come in the order networkx iterates them.
  \<^verbatim>\<open>remove_edge\<close> keeps both endpoints as nodes.
\<close>

record digraph =
  dg_nodes :: "int list"
  dg_edges :: "(int \<times> int) list"

definition DiGraph :: digraph where
  "DiGraph = \<lparr>dg_nodes = [], dg_edges = []\<rparr>"

definition add_edge :: "digraph \<Rightarrow> int \<Rightarrow> int \<Rightarrow> digraph" where
  "add_edge g u v = \<lparr>dg_nodes = ins v (ins u (dg_nodes g)), dg_edges = ins (u, v) (dg_edges g)\<rparr>"

definition has_edge :: "digraph \<Rightarrow> int \<Rightarrow> int \<Rightarrow> bool" where
  "has_edge g u v = ((u, v) \<in> set (dg_edges g))"

definition remove_edge :: "digraph \<Rightarrow> int \<Rightarrow> int \<Rightarrow> digraph outcome" where
  "remove_edge g u v =
     (if (u, v) \<in> set (dg_edges g) then Return (g\<lparr>dg_edges := removeAll (u, v) (dg_edges g)\<rparr>)
      else Raise NetworkXError)"

definition predecessors :: "digraph \<Rightarrow> int \<Rightarrow> int list outcome" where
  "predecessors g v =
     (if v \<in> set (dg_nodes g) then Return (map fst (filter (\<lambda>e. snd e = v) (dg_edges g)))
      else Raise NetworkXError)"

definition successors :: "digraph \<Rightarrow> int \<Rightarrow> int list outcome" where
  "successors g v =
     (if v \<in> set (dg_nodes g) then Return (map snd (filter (\<lambda>e. fst e = v) (dg_edges g)))
      else Raise NetworkXError)"

text \<open>A Python variable that holds a \<^verbatim>\<open>DiGraph\<close> or \<^verbatim>\<open>None\<close>; a method call on \<^verbatim>\<open>None\<close> raises.\<close>

definition attr :: "digraph option \<Rightarrow> digraph outcome" where
  "attr fam = (case fam of None \<Rightarrow> Raise AttributeError | Some g \<Rightarrow> Return g)"

section \<open>The graph state\<close>

text \<open>
  \<^verbatim>\<open>GraphStateCircuit\<close>: the graph, the ordered input nodes and the output nodes.
\<close>

record state =
  graph :: ugraph
  input_nodes :: "int list"
  output_nodes :: "int list"

text \<open>
  Modelled from the spec: the property \<^verbatim>\<open>outputc\<close> of \<^verbatim>\<open>GraphStateCircuit\<close> is not part
  of \<^verbatim>\<open>flow.py\<close>; the spec defines it as \<open>OutputComplement = V \ Output\<close>. It is listed
  in the order of the graph's nodes.
\<close>

definition outputc :: "state \<Rightarrow> int list" where
  "outputc st = filter (\<lambda>v. v \<notin> set (output_nodes st)) (nodes (graph st))"

section \<open>Building the path cover\<close>

text \<open>
  \<^verbatim>\<open>visited[next(fam.predecessors(v))] < iter\<close>
\<close>

definition pred_unvisited :: "digraph \<Rightarrow> nat list \<Rightarrow> nat \<Rightarrow> int \<Rightarrow> bool outcome" where
  "pred_unvisited g visited iter v =
     obind (predecessors g v) (\<lambda>ps. obind (next_iter ps) (\<lambda>p.
     obind (np_get visited p) (\<lambda>s. Return (s < iter))))"

text \<open>
  The condition of the first \<^verbatim>\<open>if\<close> of \<^verbatim>\<open>_augmented_search\<close> (lines 173 to 177), with
  Python's short-circuit \<^verbatim>\<open>and\<close>.
\<close>

definition reroot_cond :: "state \<Rightarrow> digraph option \<Rightarrow> nat \<Rightarrow> nat list \<Rightarrow> int \<Rightarrow> bool outcome" where
  "reroot_cond st fam iter visited v =
     obind (attr fam) (\<lambda>g.
       if v \<in> set (dg_nodes g) \<and> v \<notin> set (input_nodes st) then pred_unvisited g visited iter v
       else Return False)"

text \<open>
  The condition of the \<^verbatim>\<open>if\<close> in the neighbour loop (lines 186 to 190).
\<close>

definition scan_cond :: "state \<Rightarrow> digraph option \<Rightarrow> nat \<Rightarrow> nat list \<Rightarrow> int \<Rightarrow> int \<Rightarrow> bool outcome" where
  "scan_cond st fam iter visited v w =
     obind (np_get visited w) (\<lambda>s.
       if s < iter \<and> w \<notin> set (input_nodes st) then obind (attr fam) (\<lambda>g. Return (\<not> has_edge g v w))
       else Return False)"

text \<open>
  \<^verbatim>\<open>fam.remove_edge(next(fam.predecessors(v)), v)\<close>: the method is looked up on \<open>fam\<close>
  first, then the argument is evaluated.
\<close>

definition remove_pred_edge :: "digraph option \<Rightarrow> int \<Rightarrow> digraph outcome" where
  "remove_pred_edge fam v =
     obind (attr fam) (\<lambda>g. obind (predecessors g v) (\<lambda>ps. obind (next_iter ps) (\<lambda>p.
       remove_edge g p v)))"

text \<open>\<^verbatim>\<open>next(fam.predecessors(v))\<close>, as the argument of a recursive call.\<close>

definition first_pred :: "digraph option \<Rightarrow> int \<Rightarrow> int outcome" where
  "first_pred fam v = obind (attr fam) (\<lambda>g. obind (predecessors g v) next_iter)"

text \<open>
  \<^verbatim>\<open>_augmented_search\<close>, and its loop over the neighbours of \<open>v\<close>. The graph \<open>fam\<close> and the
  array \<open>visited\<close> are mutated in place and returned; every caller goes on with the
  returned values. At line 182 the variable \<open>fam\<close> is assigned the result of
  \<^verbatim>\<open>remove_edge\<close>, which is \<^verbatim>\<open>None\<close>, and that is what line 183 returns.
\<close>

fun augmented_search ::
      "nat \<Rightarrow> state \<Rightarrow> digraph option \<Rightarrow> nat \<Rightarrow> nat list \<Rightarrow> int \<Rightarrow> (digraph option \<times> nat list \<times> nat) outcome"
  and search_neighbors ::
      "nat \<Rightarrow> state \<Rightarrow> digraph option \<Rightarrow> nat \<Rightarrow> nat list \<Rightarrow> int \<Rightarrow> int list \<Rightarrow> (digraph option \<times> nat list \<times> nat) outcome"
where
  "augmented_search 0 st fam iter visited v = OutOfFuel"
| "augmented_search (Suc n) st fam iter visited v =
     obind (np_set visited v iter) (\<lambda>visited.
     if v \<in> set (output_nodes st) then Return (fam, visited, 1)
     else obind (reroot_cond st fam iter visited v) (\<lambda>c.
       if c then
         obind (first_pred fam v) (\<lambda>p.
         obind (augmented_search n st fam iter visited p) (\<lambda>(fam, visited, status).
           if status \<noteq> 0 then
             obind (remove_pred_edge fam v) (\<lambda>_. Return (None, visited, 1))
           else obind (neighbors (graph st) v) (search_neighbors n st fam iter visited v)))
       else obind (neighbors (graph st) v) (search_neighbors n st fam iter visited v)))"
| "search_neighbors n st fam iter visited v [] = Return (fam, visited, 0)"
| "search_neighbors n st fam iter visited v (w # ws) =
     obind (scan_cond st fam iter visited v w) (\<lambda>c.
     if c then
       obind (attr fam) (\<lambda>g.
       if w \<notin> set (dg_nodes g) then
         obind (augmented_search n st fam iter visited w) (\<lambda>(fam, visited, status).
           if status \<noteq> 0 then
             obind (attr fam) (\<lambda>g. Return (Some (add_edge g v w), visited, 1))
           else search_neighbors n st fam iter visited v ws)
       else
         obind (pred_unvisited g visited iter w) (\<lambda>c'.
         if c' then
           obind (first_pred fam w) (\<lambda>p.
           obind (augmented_search n st fam iter visited p) (\<lambda>(fam, visited, status).
             if status \<noteq> 0 then
               obind (remove_pred_edge fam w) (\<lambda>g.
               Return (Some (add_edge g v w), visited, 1))
             else search_neighbors n st fam iter visited v ws))
         else search_neighbors n st fam iter visited v ws))
     else search_neighbors n st fam iter visited v ws)"


text \<open>
  What \<^verbatim>\<open>_build_path_cover\<close> returns: the graph \<open>fam\<close>, or the integer \<open>0\<close> (the failed
  status of line 157, or the literal of line 162).
\<close>

datatype tau = Fam digraph | Zero

fun path_cover_loop ::
  "nat \<Rightarrow> state \<Rightarrow> digraph option \<Rightarrow> nat \<Rightarrow> nat list \<Rightarrow> int list \<Rightarrow> tau outcome" where
  "path_cover_loop fuel st fam iter visited [] =
     obind (attr fam) (\<lambda>g.
       if set (nodes (graph st)) - set (dg_nodes g) = {} then Return (Fam g) else Return Zero)"
| "path_cover_loop fuel st fam iter visited (i # is) =
     obind (augmented_search fuel st fam (Suc iter) visited i) (\<lambda>(fam, visited, status).
       if status = 0 then Return Zero
       else path_cover_loop fuel st fam (Suc iter) visited is)"

definition build_path_cover :: "nat \<Rightarrow> state \<Rightarrow> tau outcome" where
  "build_path_cover fuel st =
     path_cover_loop fuel st (Some DiGraph) 0 (np_zeros (length (nodes (graph st)))) (input_nodes st)"

text \<open>Python's truth value of the result: a graph is true when it has a node.\<close>

fun truthy :: "tau \<Rightarrow> bool" where
  "truthy (Fam g) = (dg_nodes g \<noteq> [])"
| "truthy Zero = False"

section \<open>Chain decomposition\<close>

type_synonym chains = "int dict \<times> int list \<times> nat list"

text \<open>
  The \<^verbatim>\<open>while\<close> loop of \<^verbatim>\<open>_get_chain_decomposition\<close> for the input \<open>i\<close>, at the vertex
  \<open>v\<close> with depth \<open>l\<close>.
\<close>

fun chain_walk :: "nat \<Rightarrow> state \<Rightarrow> digraph \<Rightarrow> int \<Rightarrow> int \<Rightarrow> nat \<Rightarrow> chains \<Rightarrow> chains outcome" where
  "chain_walk 0 st C i v l (f, P, L) = OutOfFuel"
| "chain_walk (Suc n) st C i v l (f, P, L) =
     (if v \<notin> set (output_nodes st) then
        obind (successors C v) (\<lambda>ss. obind (next_iter ss) (\<lambda>s.
        obind (np_set P v i) (\<lambda>P. obind (np_set L v l) (\<lambda>L.
        obind (dict_get (dict_set f v s) v) (\<lambda>v'.
          chain_walk n st C i v' (l + 1) (dict_set f v s, P, L))))))
      else
        obind (np_set P v i) (\<lambda>P. obind (np_set L v l) (\<lambda>L. Return (f, P, L))))"

fun chain_loop :: "nat \<Rightarrow> state \<Rightarrow> digraph \<Rightarrow> chains \<Rightarrow> int list \<Rightarrow> chains outcome" where
  "chain_loop fuel st C r [] = Return r"
| "chain_loop fuel st C r (i # is) =
     obind (chain_walk fuel st C i i 0 r) (\<lambda>r. chain_loop fuel st C r is)"

text \<open>
  Lines 77 and 96 iterate over the Python set \<^verbatim>\<open>set(state.graph) - set(state.output_nodes)\<close>.
  The language leaves the iteration order of a set to the implementation (CPython follows
  the slots of its hash table), so the model takes the order as an argument: any list that
  enumerates the non-output vertices without repetition. The order of line 77 is \<open>ks\<close>, the
  order in which the keys of the dictionary \<open>f\<close> are inserted; the order of line 96 is \<open>vs\<close>.
\<close>

definition set_order :: "state \<Rightarrow> int list \<Rightarrow> bool" where
  "set_order st vs = (distinct vs \<and> set vs = set (nodes (graph st)) - set (output_nodes st))"

text \<open>The non-output vertices in the order of the graph's nodes: one such order.\<close>

definition non_output_nodes :: "state \<Rightarrow> int list" where
  "non_output_nodes st = filter (\<lambda>v. v \<notin> set (output_nodes st)) (nodes (graph st))"

definition get_chain_decomposition :: "nat \<Rightarrow> state \<Rightarrow> digraph \<Rightarrow> int list \<Rightarrow> chains outcome" where
  "get_chain_decomposition fuel st C ks =
     chain_loop fuel st C
       (map (\<lambda>v. (v, 0)) ks,
        replicate (length (nodes (graph st))) 0,
        replicate (length (nodes (graph st))) 0)
       (input_nodes st)"

section \<open>Suprema\<close>

text \<open>
  \<^verbatim>\<open>{v: index for index, v in enumerate(state.input_nodes)}\<close>: a node listed twice keeps
  its last index.
\<close>

fun enumerate_dict :: "nat dict \<Rightarrow> nat \<Rightarrow> int list \<Rightarrow> nat dict" where
  "enumerate_dict d k [] = d"
| "enumerate_dict d k (v # vs) = enumerate_dict (dict_set d v k) (Suc k) vs"

definition vertex2index :: "state \<Rightarrow> nat dict" where
  "vertex2index st = enumerate_dict [] 0 (input_nodes st)"

text \<open>The two-dimensional array \<open>sup\<close>, a list of rows; the row index is never negative.\<close>

definition sup_get :: "nat list list \<Rightarrow> nat \<Rightarrow> int \<Rightarrow> nat outcome" where
  "sup_get sups r v = (if r < length sups then np_get (sups ! r) v else Raise IndexError)"

definition sup_set :: "nat list list \<Rightarrow> nat \<Rightarrow> int \<Rightarrow> nat \<Rightarrow> nat list list outcome" where
  "sup_set sups r v x =
     (if r < length sups then obind (np_set (sups ! r) v x) (\<lambda>row. Return (sups[r := row]))
      else Raise IndexError)"

text \<open>The inner loop of \<^verbatim>\<open>_init_status\<close> (lines 134 to 138).\<close>

fun init_sup :: "state \<Rightarrow> int list \<Rightarrow> nat list \<Rightarrow> nat list list \<Rightarrow> int \<Rightarrow> int list \<Rightarrow> nat list list outcome" where
  "init_sup st P L sups v [] = Return sups"
| "init_sup st P L sups v (i # is) =
     obind (np_get P v) (\<lambda>p.
     obind (dict_get (vertex2index st) i) (\<lambda>r.
     obind (if i = p then obind (np_get L v) (\<lambda>l. sup_set sups r v l)
            else sup_set sups r v (length (nodes (graph st)))) (\<lambda>sups.
       init_sup st P L sups v is)))"

fun init_loop ::
  "state \<Rightarrow> int list \<Rightarrow> nat list \<Rightarrow> nat list list \<Rightarrow> nat list \<Rightarrow> int list \<Rightarrow> (nat list list \<times> nat list) outcome" where
  "init_loop st P L sups status [] = Return (sups, status)"
| "init_loop st P L sups status (v # vs) =
     obind (init_sup st P L sups v (input_nodes st)) (\<lambda>sups.
     obind (np_set status v (if v \<in> set (output_nodes st) then 2 else 0)) (\<lambda>status.
       init_loop st P L sups status vs))"

definition init_status :: "state \<Rightarrow> int list \<Rightarrow> nat list \<Rightarrow> (nat list list \<times> nat list) outcome" where
  "init_status st P L =
     init_loop st P L
       (replicate (length (input_nodes st)) (np_zeros (length (nodes (graph st)))))
       (np_zeros (length (nodes (graph st))))
       (nodes (graph st))"

text \<open>Lines 118 to 120: \<open>sup[i][v]\<close> is lowered to \<open>sup[i][w]\<close>, for every input \<open>i\<close>.\<close>

fun tighten :: "state \<Rightarrow> nat list list \<Rightarrow> int \<Rightarrow> int \<Rightarrow> int list \<Rightarrow> nat list list outcome" where
  "tighten st sups v w [] = Return sups"
| "tighten st sups v w (i # is) =
     obind (dict_get (vertex2index st) i) (\<lambda>r.
     obind (sup_get sups r v) (\<lambda>a.
     obind (sup_get sups r w) (\<lambda>b.
     obind (if a > b then sup_set sups r v b else Return sups) (\<lambda>sups.
       tighten st sups v w is))))"

text \<open>
  \<^verbatim>\<open>_traverse_infl_walk\<close> and its loop over the neighbours of \<open>v\<close>. Status 0 is none, 1 is
  pending, 2 is fixed.
\<close>

fun traverse_infl_walk ::
      "nat \<Rightarrow> state \<Rightarrow> int dict \<Rightarrow> nat list list \<Rightarrow> nat list \<Rightarrow> int \<Rightarrow> (nat list list \<times> nat list) outcome"
  and traverse_neighbors ::
      "nat \<Rightarrow> state \<Rightarrow> int dict \<Rightarrow> nat list list \<Rightarrow> nat list \<Rightarrow> int \<Rightarrow> int list \<Rightarrow> (nat list list \<times> nat list) outcome"
where
  "traverse_infl_walk 0 st f sups status v = OutOfFuel"
| "traverse_infl_walk (Suc n) st f sups status v =
     obind (np_set status v 1) (\<lambda>status.
     obind (neighbors (graph st) v) (traverse_neighbors n st f sups status v))"
| "traverse_neighbors n st f sups status v [] =
     obind (np_set status v 2) (\<lambda>status. Return (sups, status))"
| "traverse_neighbors n st f sups status v (w # ws) =
     obind (dict_get f v) (\<lambda>fv.
     if w = fv \<and> w \<noteq> v then
       obind (np_get status w) (\<lambda>s.
       obind (if s = 0 then traverse_infl_walk n st f sups status w else Return (sups, status))
         (\<lambda>(sups, status).
       obind (np_get status w) (\<lambda>s.
       if s = 1 then Return (sups, status)
       else obind (tighten st sups v w (input_nodes st)) (\<lambda>sups.
         traverse_neighbors n st f sups status v ws))))
     else traverse_neighbors n st f sups status v ws)"

text \<open>
  The loop of \<^verbatim>\<open>_compute_suprema\<close>. It returns \<^verbatim>\<open>None\<close> as soon as a vertex is left
  pending.
\<close>

fun suprema_loop ::
  "nat \<Rightarrow> state \<Rightarrow> int dict \<Rightarrow> nat list list \<Rightarrow> nat list \<Rightarrow> int list \<Rightarrow> nat list list option outcome" where
  "suprema_loop fuel st f sups status [] = Return (Some sups)"
| "suprema_loop fuel st f sups status (v # vs) =
     obind (np_get status v) (\<lambda>s.
     obind (if s = 0 then traverse_infl_walk fuel st f sups status v else Return (sups, status))
       (\<lambda>(sups, status).
     obind (np_get status v) (\<lambda>s.
     if s = 1 then Return None else suprema_loop fuel st f sups status vs)))"

text \<open>
  \<^verbatim>\<open>_compute_suprema\<close>. The loop of line 96 runs over the set
  \<^verbatim>\<open>set(nodes) - set(output_nodes)\<close> in the order \<open>vs\<close> (see \<^term>\<open>set_order\<close>).
\<close>

definition compute_suprema ::
  "nat \<Rightarrow> state \<Rightarrow> int dict \<Rightarrow> int list \<Rightarrow> nat list \<Rightarrow> int list \<Rightarrow> nat list list option outcome" where
  "compute_suprema fuel st f P L vs =
     obind (init_status st P L) (\<lambda>(sups, status). suprema_loop fuel st f sups status vs)"

section \<open>Assembling the flow\<close>

text \<open>
  \<^verbatim>\<open>_flow_from_array\<close>: the flow is the dictionary \<open>f\<close> restricted to the complement of the
  outputs; elsewhere the closure raises \<open>UserWarning\<close>.
\<close>

definition flow_from_array :: "state \<Rightarrow> int dict \<Rightarrow> int \<Rightarrow> int outcome" where
  "flow_from_array st f v = (if v \<in> set (outputc st) then dict_get f v else Raise UserWarning)"

fun flowgraph_loop :: "state \<Rightarrow> int dict \<Rightarrow> digraph \<Rightarrow> int list \<Rightarrow> digraph outcome" where
  "flowgraph_loop st f H [] = Return H"
| "flowgraph_loop st f H (v # vs) =
     obind (flow_from_array st f v) (\<lambda>w. flowgraph_loop st f (add_edge H v w) vs)"

definition get_flowgraph :: "state \<Rightarrow> int dict \<Rightarrow> digraph outcome" where
  "get_flowgraph st f = flowgraph_loop st f DiGraph (outputc st)"

text \<open>
  \<^verbatim>\<open>nx.topological_sort\<close> belongs to networkx, not to this repository; it is modelled as
  networkx 2.6 and later compute it, by generations: the nodes of in-degree zero form the
  first generation; visiting a generation lowers the in-degree of each child, and the
  children that reach zero form the next one. Nodes left with a positive in-degree at the
  end lie on or behind a cycle, and the sort raises \<open>NetworkXUnfeasible\<close>.
\<close>

definition in_degree :: "digraph \<Rightarrow> int \<Rightarrow> nat" where
  "in_degree g v = length (filter (\<lambda>e. snd e = v) (dg_edges g))"

fun relax :: "nat dict \<Rightarrow> int list \<Rightarrow> int list \<Rightarrow> (nat dict \<times> int list) outcome" where
  "relax m zero [] = Return (m, zero)"
| "relax m zero (c # cs) =
     (case map_of m c of
        None \<Rightarrow> Raise RuntimeError
      | Some d \<Rightarrow>
          if d - 1 = 0 then relax (filter (\<lambda>p. fst p \<noteq> c) m) (zero @ [c]) cs
          else relax (dict_set m c (d - 1)) zero cs)"

fun relax_generation :: "digraph \<Rightarrow> nat dict \<Rightarrow> int list \<Rightarrow> int list \<Rightarrow> (nat dict \<times> int list) outcome" where
  "relax_generation g m zero [] = Return (m, zero)"
| "relax_generation g m zero (node # ns) =
     obind (successors g node) (\<lambda>cs.
     obind (relax m zero cs) (\<lambda>(m, zero). relax_generation g m zero ns))"

fun topo_loop :: "nat \<Rightarrow> digraph \<Rightarrow> nat dict \<Rightarrow> int list \<Rightarrow> int list outcome" where
  "topo_loop fuel g m [] = (if m \<noteq> [] then Raise NetworkXUnfeasible else Return [])"
| "topo_loop 0 g m (z # zs) = OutOfFuel"
| "topo_loop (Suc n) g m (z # zs) =
     obind (relax_generation g m [] (z # zs)) (\<lambda>(m, zero).
     obind (topo_loop n g m zero) (\<lambda>rest. Return ((z # zs) @ rest)))"

definition topological_sort :: "nat \<Rightarrow> digraph \<Rightarrow> int list outcome" where
  "topological_sort fuel g =
     topo_loop fuel g
       (map (\<lambda>v. (v, in_degree g v)) (filter (\<lambda>v. in_degree g v > 0) (dg_nodes g)))
       (filter (\<lambda>v. in_degree g v = 0) (dg_nodes g))"

section \<open>The sanity check\<close>

text \<open>\<^verbatim>\<open>top_order.index(x)\<close> raises \<open>ValueError\<close> when \<open>x\<close> is not in the list.\<close>

fun index_of :: "int list \<Rightarrow> int \<Rightarrow> nat outcome" where
  "index_of [] x = Raise ValueError"
| "index_of (y # ys) x = (if y = x then Return 0 else obind (index_of ys x) (\<lambda>k. Return (Suc k)))"

text \<open>
  The product of \<^verbatim>\<open>[top_order.index(i) < top_order.index(k) for k in ks]\<close>, read as a
  truth value.
\<close>

fun all_later :: "int list \<Rightarrow> int \<Rightarrow> int list \<Rightarrow> bool outcome" where
  "all_later top_order i [] = Return True"
| "all_later top_order i (k # ks) =
     obind (index_of top_order i) (\<lambda>a.
     obind (index_of top_order k) (\<lambda>b.
     obind (all_later top_order i ks) (\<lambda>r. Return (a < b \<and> r))))"

text \<open>
  \<^verbatim>\<open>_check_if_flow\<close>. \<^verbatim>\<open>state.graph.neighbors\<close> returns an iterator, not a list: the
  test \<^verbatim>\<open>i in nfi\<close> of line 213 advances it up to and including the first occurrence of
  \<open>i\<close> (to its end when \<open>i\<close> is absent), so \<^verbatim>\<open>set(nfi)\<close> at line 216 holds only the
  neighbours that come after \<open>i\<close>.
\<close>

definition after_first :: "int \<Rightarrow> int list \<Rightarrow> int list" where
  "after_first i ws = drop 1 (dropWhile (\<lambda>x. x \<noteq> i) ws)"

fun check_loop :: "state \<Rightarrow> int dict \<Rightarrow> int list \<Rightarrow> bool \<Rightarrow> int list \<Rightarrow> bool outcome" where
  "check_loop st f top_order conds [] = Return conds"
| "check_loop st f top_order conds (i # is) =
     obind (flow_from_array st f i) (\<lambda>fi.
     obind (neighbors (graph st) fi) (\<lambda>nfi.
     obind (index_of top_order i) (\<lambda>a.
     obind (flow_from_array st f i) (\<lambda>fi'.
     obind (index_of top_order fi') (\<lambda>b.
     obind (all_later top_order i (filter (\<lambda>k. k \<noteq> i) (remdups (after_first i nfi)))) (\<lambda>c3.
       check_loop st f top_order (conds \<and> i \<in> set nfi \<and> a < b \<and> c3) is))))))"

definition check_if_flow :: "state \<Rightarrow> int dict \<Rightarrow> int list \<Rightarrow> bool outcome" where
  "check_if_flow st f top_order = check_loop st f top_order True (outputc st)"

section \<open>The top level\<close>

text \<open>
  \<^verbatim>\<open>find_flow\<close>. It returns the pair of the flow and the topological order, or \<^verbatim>\<open>None\<close>
  when the suprema are \<^verbatim>\<open>None\<close> (the \<^verbatim>\<open>if\<close> of line 46 has no \<^verbatim>\<open>else\<close>, and the function
  ends there). The flow is returned as its dictionary \<open>f\<close>; the closure the caller gets
  is \<^term>\<open>flow_from_array st f\<close>, which reads \<open>f\<close> by key only. The first argument bounds
  the nesting of recursive calls and the rounds of the \<^verbatim>\<open>while\<close> loops in each stage; the
  last two are the orders in which the sets of lines 77 and 96 are iterated.
\<close>

definition find_flow ::
  "nat \<Rightarrow> state \<Rightarrow> bool \<Rightarrow> int list \<Rightarrow> int list \<Rightarrow> (int dict \<times> int list) option outcome" where
  "find_flow fuel st sanity_check ks vs =
     (if length (input_nodes st) \<noteq> length (output_nodes st) then Raise ValueError
      else
        obind (build_path_cover fuel st) (\<lambda>tau.
        if truthy tau then
          (case tau of
             Zero \<Rightarrow> Raise AttributeError
           | Fam C \<Rightarrow>
               obind (get_chain_decomposition fuel st C ks) (\<lambda>(f, P, L).
               obind (compute_suprema fuel st f P L vs) (\<lambda>sigma.
               case sigma of
                 None \<Rightarrow> Return None
               | Some _ \<Rightarrow>
                   obind (get_flowgraph st f) (\<lambda>g.
                   obind (topological_sort fuel g) (\<lambda>top_order.
                   if sanity_check then
                     obind (check_if_flow st f top_order) (\<lambda>ok.
                       if \<not> ok then Raise RuntimeError else Return (Some (f, top_order)))
                   else Return (Some (f, top_order)))))))
        else Raise UserWarning))"

section \<open>The validator as the specification words it\<close>

text \<open>
  The position of a vertex in a topological order, and the three conditions of the
  specification's \<open>validate\<close>: for every vertex \<open>v\<close> of the output complement, (a) \<open>v\<close> is
  adjacent to \<open>flow v\<close>, (b) \<open>v\<close> comes before \<open>flow v\<close>, (c) \<open>v\<close> comes before every
  neighbour of \<open>flow v\<close> other than \<open>v\<close>.
\<close>

definition order_of :: "int list \<Rightarrow> int \<Rightarrow> nat" where
  "order_of top_order v = length (takeWhile (\<lambda>x. x \<noteq> v) top_order)"

definition validate :: "state \<Rightarrow> (int \<Rightarrow> int) \<Rightarrow> (int \<Rightarrow> nat) \<Rightarrow> bool" where
  "validate st flow ord =
     list_all (\<lambda>v.
         v \<in> set (adj (graph st) (flow v))
       \<and> ord v < ord (flow v)
       \<and> list_all (\<lambda>k. ord v < ord k) (filter (\<lambda>k. k \<noteq> v) (adj (graph st) (flow v))))
       (outputc st)"

section \<open>Notions used in the proofs\<close>

text \<open>The indices a numpy array of length \<open>n\<close> accepts.\<close>

definition in_range :: "nat \<Rightarrow> int \<Rightarrow> bool" where
  "in_range n v = (- int n \<le> v \<and> v < int n)"

text \<open>
  Some vertex label does not fit a signed 64-bit integer; and the way an array access at a
  vertex label fails: with \<open>IndexError\<close>, or with \<open>OverflowError\<close> when some label does not
  fit.
\<close>

definition overflows :: "state \<Rightarrow> bool" where
  "overflows st = list_ex (\<lambda>u. u < - (2 ^ 63) \<or> 2 ^ 63 \<le> u) (nodes (graph st))"

definition index_raise :: "state \<Rightarrow> 'a outcome \<Rightarrow> bool" where
  "index_raise st r = (r = Raise IndexError \<or> (r = Raise OverflowError \<and> overflows st))"

text \<open>The array \<open>sup\<close> has one row for each input and one column for each vertex.\<close>

definition sup_shape :: "state \<Rightarrow> nat list list \<Rightarrow> bool" where
  "sup_shape st sups = (length sups = length (input_nodes st)
      \<and> list_all (\<lambda>row. length row = length (nodes (graph st))) sups)"

text \<open>
  What the neighbour loop of \<^verbatim>\<open>_traverse_infl_walk\<close> does at the one neighbour \<open>w\<close> that is
  the successor of \<open>v\<close>, followed by the end of the loop.
\<close>

definition after_successor ::
  "nat \<Rightarrow> state \<Rightarrow> int dict \<Rightarrow> nat list list \<Rightarrow> nat list \<Rightarrow> int \<Rightarrow> int \<Rightarrow> (nat list list \<times> nat list) outcome" where
  "after_successor n st f sups status v w =
     obind (np_get status w) (\<lambda>s.
     obind (if s = 0 then traverse_infl_walk n st f sups status w else Return (sups, status))
       (\<lambda>(sups, status).
     obind (np_get status w) (\<lambda>s.
     if s = 1 then Return (sups, status)
     else obind (tighten st sups v w (input_nodes st)) (\<lambda>sups.
       obind (np_set status v 2) (\<lambda>status. Return (sups, status))))))"

text \<open>The status of a vertex whose label is not negative.\<close>

definition stat :: "nat list \<Rightarrow> int \<Rightarrow> nat" where
  "stat status v = status ! nat v"

text \<open>Every vertex label lies in \<open>0 .. |V| - 1\<close>.\<close>

definition wf_labels :: "state \<Rightarrow> bool" where
  "wf_labels st = list_all (\<lambda>v. 0 \<le> v \<and> v < int (length (nodes (graph st)))) (nodes (graph st))"

text \<open>The number of cells with status none, which bounds the depth of the traversal.\<close>

definition zeros :: "nat list \<Rightarrow> nat" where
  "zeros status = card {k. k < length status \<and> status ! k = 0}"

text \<open>
  Following successors along graph edges from \<open>v\<close> comes to an end: at an output, or at a
  vertex whose successor is not a neighbour other than itself.
\<close>

inductive settles :: "state \<Rightarrow> int dict \<Rightarrow> int \<Rightarrow> bool" for st f where
  settles_output: "v \<in> set (output_nodes st) \<Longrightarrow> settles st f v"
| settles_stop: "map_of f v = Some w \<Longrightarrow> w \<notin> set (adj (graph st) v) \<or> w = v \<Longrightarrow> settles st f v"
| settles_step: "map_of f v = Some w \<Longrightarrow> w \<in> set (adj (graph st) v) \<Longrightarrow> w \<noteq> v \<Longrightarrow> settles st f w
                 \<Longrightarrow> settles st f v"

text \<open>Invariants of the traversal: every fixed vertex settles, and outputs are never unvisited.\<close>

definition settled_inv :: "state \<Rightarrow> int dict \<Rightarrow> nat list \<Rightarrow> bool" where
  "settled_inv st f status =
     (\<forall>u\<in>set (nodes (graph st)). stat status u \<noteq> 0 \<and> stat status u \<noteq> 1 \<longrightarrow> settles st f u)"

definition walk_pre :: "state \<Rightarrow> int dict \<Rightarrow> nat list list \<Rightarrow> nat list \<Rightarrow> bool" where
  "walk_pre st f sups status =
     (length status = length (nodes (graph st)) \<and> sup_shape st sups
      \<and> (\<forall>u\<in>set (nodes (graph st)). u \<in> set (output_nodes st) \<longrightarrow> stat status u \<noteq> 0)
      \<and> settled_inv st f status)"

text \<open>
  What one call of the traversal at \<open>v\<close> guarantees: visited cells keep their status, \<open>v\<close>
  is pending or fixed, and when \<open>v\<close> is fixed no vertex has become pending.
\<close>

definition walk_post :: "state \<Rightarrow> int dict \<Rightarrow> nat list \<Rightarrow> int \<Rightarrow> nat list list \<Rightarrow> nat list \<Rightarrow> bool" where
  "walk_post st f status v sups' status' =
     (walk_pre st f sups' status'
      \<and> (\<forall>k<length status. status ! k \<noteq> 0 \<longrightarrow> status' ! k = status ! k)
      \<and> stat status' v \<noteq> 0
      \<and> (stat status' v \<noteq> 1 \<longrightarrow> (\<forall>k<length status. status' ! k = 1 \<longrightarrow> status ! k = 1)))"

text \<open>
  The step the traversal takes from a vertex: to its successor, when that is a neighbour
  other than the vertex itself. A vertex is clear of pending vertices when no number of such
  steps leads from it to a pending one.
\<close>

definition succ_edge :: "state \<Rightarrow> int dict \<Rightarrow> int \<Rightarrow> int \<Rightarrow> bool" where
  "succ_edge st f x y =
     (x \<notin> set (output_nodes st) \<and> map_of f x = Some y \<and> y \<in> set (adj (graph st) x) \<and> y \<noteq> x)"

definition clear_of_pending :: "state \<Rightarrow> int dict \<Rightarrow> nat list \<Rightarrow> int \<Rightarrow> bool" where
  "clear_of_pending st f status v =
     (\<forall>u\<in>set (nodes (graph st)). stat status u = 1 \<longrightarrow> \<not> rtranclp (succ_edge st f) v u)"

text \<open>Labels are in range and every non-output vertex has a successor entry.\<close>

definition sup_pre :: "state \<Rightarrow> int dict \<Rightarrow> bool" where
  "sup_pre st f = (wf_labels st \<and> (\<forall>v\<in>set (non_output_nodes st). map_of f v \<noteq> None))"

text \<open>During \<^verbatim>\<open>_init_status\<close> no cell is pending and only outputs are fixed.\<close>

definition init_inv :: "state \<Rightarrow> nat list \<Rightarrow> bool" where
  "init_inv st status =
     (length status = length (nodes (graph st))
      \<and> (\<forall>k<length status. status ! k \<noteq> 1)
      \<and> (\<forall>u\<in>set (nodes (graph st)). stat status u \<noteq> 0 \<longrightarrow> u \<in> set (output_nodes st)))"

text \<open>One outcome is the other with less fuel: it ran out, or it is the same.\<close>

definition fuel_le :: "'a outcome \<Rightarrow> 'a outcome \<Rightarrow> bool" where
  "fuel_le a b = (a = OutOfFuel \<or> a = b)"

text \<open>Every edge of the family joins two vertices of the graph.\<close>

definition edges_in :: "state \<Rightarrow> digraph option \<Rightarrow> bool" where
  "edges_in st fam = (case fam of None \<Rightarrow> True
     | Some g \<Rightarrow> list_all (\<lambda>(u, w). u \<in> set (nodes (graph st)) \<and> w \<in> set (nodes (graph st))) (dg_edges g))"

text \<open>\<^verbatim>\<open>next(C.successors(v))\<close>, when it returns.\<close>

definition chain_succ :: "digraph \<Rightarrow> int \<Rightarrow> int option" where
  "chain_succ C v = (case successors C v of Return (s # _) \<Rightarrow> Some s | _ \<Rightarrow> None)"

text \<open>The vertices met from \<open>v\<close> by following first successors in \<open>C\<close> up to the first output.\<close>

inductive chain_path :: "state \<Rightarrow> digraph \<Rightarrow> int \<Rightarrow> int list \<Rightarrow> bool" for st C where
  chain_end: "v \<in> set (output_nodes st) \<Longrightarrow> chain_path st C v [v]"
| chain_step: "v \<notin> set (output_nodes st) \<Longrightarrow> chain_succ C v = Some s \<Longrightarrow> chain_path st C s p
               \<Longrightarrow> chain_path st C v (v # p)"

text \<open>The successor map has the first successor of \<open>u\<close> in \<open>C\<close>, when there is one.\<close>

definition agrees :: "digraph \<Rightarrow> int dict \<Rightarrow> int \<Rightarrow> bool" where
  "agrees C f u = (\<forall>s. chain_succ C u = Some s \<longrightarrow> map_of f u = Some s)"

text \<open>
  Following the successor map \<open>f\<close> from \<open>v\<close>: the number of steps to the first output, when
  one is reached within \<open>k\<close> steps.
\<close>

fun steps_to_output :: "state \<Rightarrow> int dict \<Rightarrow> nat \<Rightarrow> int \<Rightarrow> nat option" where
  "steps_to_output st f 0 v = (if v \<in> set (output_nodes st) then Some 0 else None)"
| "steps_to_output st f (Suc k) v =
     (if v \<in> set (output_nodes st) then Some 0
      else case map_of f v of None \<Rightarrow> None | Some w \<Rightarrow> map_option Suc (steps_to_output st f k w))"

text \<open>A chain walk keeps the entries that agree with \<open>C\<close>, and keeps every key.\<close>

definition walk_keeps :: "digraph \<Rightarrow> int dict \<Rightarrow> int dict \<Rightarrow> bool" where
  "walk_keeps C f f' = ((\<forall>u. agrees C f u \<longrightarrow> agrees C f' u) \<and> (\<forall>u. map_of f u \<noteq> None \<longrightarrow> map_of f' u \<noteq> None))"

text \<open>An outcome seen through a function of its value.\<close>

fun omap :: "('a \<Rightarrow> 'b) \<Rightarrow> 'a outcome \<Rightarrow> 'b outcome" where
  "omap h (Return x) = Return (h x)"
| "omap h (Raise e) = Raise e"
| "omap h OutOfFuel = OutOfFuel"

text \<open>
  The program reads the dictionary \<open>f\<close> by key only (lines 65, 80, 83 and 112) and never
  iterates it: what it can see of \<open>f\<close> is the map from keys to values, whatever the order in
  which the keys were inserted.
\<close>

definition chains_view :: "chains \<Rightarrow> (int \<Rightarrow> int option) \<times> int list \<times> nat list" where
  "chains_view r = (case r of (f, P, L) \<Rightarrow> (map_of f, P, L))"

definition flow_view :: "(int dict \<times> int list) option \<Rightarrow> ((int \<Rightarrow> int option) \<times> int list) option" where
  "flow_view r = map_option (\<lambda>(f, top_order). (map_of f, top_order)) r"

section \<open>Example states\<close>

text \<open>The path graph of the docstring of \<^verbatim>\<open>find_flow\<close>: \<open>0 - 1 - 2 - 3 - 4\<close>.\<close>

definition path5 :: state where
  "path5 = \<lparr>graph = \<lparr>ug_nodes = [], ug_edges = [(0, 1), (1, 2), (2, 3), (3, 4)]\<rparr>,
             input_nodes = [0], output_nodes = [4]\<rparr>"

text \<open>The state without vertices.\<close>

definition empty_state :: state where
  "empty_state = \<lparr>graph = \<lparr>ug_nodes = [], ug_edges = []\<rparr>, input_nodes = [], output_nodes = []\<rparr>"

text \<open>
  Two inputs \<open>0, 1\<close> and two outputs \<open>4, 5\<close>. The first search claims \<open>0 \<rightarrow> 2 \<rightarrow> 3 \<rightarrow> 4\<close>; the
  second, from \<open>1\<close>, meets \<open>3\<close>, re-roots its predecessor \<open>2\<close>, and from there the
  predecessor \<open>0\<close>, which finds the output \<open>5\<close>.
\<close>

definition reroot_state :: state where
  "reroot_state = \<lparr>graph = \<lparr>ug_nodes = [], ug_edges = [(0, 2), (2, 3), (3, 4), (1, 3), (0, 5)]\<rparr>,
                    input_nodes = [0, 1], output_nodes = [4, 5]\<rparr>"

text \<open>The complete bipartite graph between the inputs \<open>0, 1\<close> and the outputs \<open>2, 3\<close>.\<close>

definition k22 :: state where
  "k22 = \<lparr>graph = \<lparr>ug_nodes = [], ug_edges = [(0, 2), (0, 3), (1, 2), (1, 3)]\<rparr>,
           input_nodes = [0, 1], output_nodes = [2, 3]\<rparr>"

text \<open>
  Seven vertices, one of them labelled \<open>-2\<close>, which shares its array cell with the output
  \<open>5\<close>. The path cover is \<open>0 \<rightarrow> 3 \<rightarrow> 4\<close> and \<open>1 \<rightarrow> -2 \<rightarrow> 2 \<rightarrow> 5\<close>.
\<close>

definition alias_state :: state where
  "alias_state = \<lparr>graph = \<lparr>ug_nodes = [0, 1, 2, 3, 4, 5, - 2],
                              ug_edges = [(0, 2), (2, 5), (0, 3), (3, 4), (1, - 2), (- 2, 2)]\<rparr>,
                   input_nodes = [0, 1], output_nodes = [4, 5]\<rparr>"

text \<open>A state with more inputs than outputs.\<close>

definition lopsided_state :: state where
  "lopsided_state = \<lparr>graph = \<lparr>ug_nodes = [], ug_edges = [(0, 1), (1, 2)]\<rparr>,
                      input_nodes = [0, 1], output_nodes = [2]\<rparr>"



text \<open>An input and an output with no edge between them.\<close>

definition split_state :: state where
  "split_state = \<lparr>graph = \<lparr>ug_nodes = [0, 1], ug_edges = []\<rparr>, input_nodes = [0], output_nodes = [1]\<rparr>"







section \<open>Lemmas\<close>

subsection \<open>Dictionaries and array indices\<close>

lemma obind_ReturnE:
  assumes "obind m k = Return y"
  obtains x where "m = Return x" "k x = Return y"
  using assms by (cases m) auto

lemma map_of_dict_set: "map_of (dict_set d k v) k' = (if k' = k then Some v else map_of d k')"
  by (induction d) auto

lemma map_of_enumerate_other: "i \<notin> set vs \<Longrightarrow> map_of (enumerate_dict d k vs) i = map_of d i"
  by (induction vs arbitrary: d k) (auto simp: map_of_dict_set)

lemma map_of_enumerate_in:
  "i \<in> set vs \<Longrightarrow> \<exists>r. map_of (enumerate_dict d k vs) i = Some r \<and> k \<le> r \<and> r < k + length vs"
proof (induction vs arbitrary: d k)
  case Nil
  then show ?case by simp
next
  case (Cons v vs)
  show ?case
  proof (cases "i \<in> set vs")
    case True
    from Cons.IH [OF True, of "dict_set d v k" "Suc k"]
    show ?thesis by auto
  next
    case False
    with Cons.prems have "i = v" by simp
    with False show ?thesis
      by (simp add: map_of_enumerate_other map_of_dict_set)
  qed
qed

lemma vertex2index_input:
  assumes "i \<in> set (input_nodes st)"
  shows "\<exists>r. dict_get (vertex2index st) i = Return r \<and> r < length (input_nodes st)"
  using map_of_enumerate_in [OF assms, of "[]" 0]
  by (auto simp: vertex2index_def dict_get_def)

lemma index_raise_obind: "index_raise st m \<Longrightarrow> index_raise st (obind m k)"
  by (auto simp: index_raise_def)

lemma np_index_cases:
  assumes "v \<in> set (nodes (graph st))"
  shows "index_raise st (np_index n v :: nat outcome) \<or> (\<exists>k<n. np_index n v = Return k)"
proof (cases "- (2 ^ 63) \<le> v \<and> v < 2 ^ 63")
  case True
  then show ?thesis by (auto simp: np_index_def index_raise_def)
next
  case False
  with assms have "overflows st"
    unfolding overflows_def list_ex_iff by (intro bexI [of _ v]) auto
  then show ?thesis by (auto simp: np_index_def index_raise_def)
qed

lemma np_index_bad:
  assumes "v \<in> set (nodes (graph st))" "\<not> in_range n v"
  shows "index_raise st (np_index n v :: nat outcome)"
  using np_index_cases [OF assms(1), of n] assms(2)
  by (auto simp: np_index_def in_range_def split: if_splits)

lemma np_set_bad:
  assumes "v \<in> set (nodes (graph st))" "\<not> in_range (length xs) v"
  shows "index_raise st (np_set xs v x)"
  unfolding np_set_def by (rule index_raise_obind) (rule np_index_bad [OF assms])


lemma np_get_cases:
  assumes "v \<in> set (nodes (graph st))"
  shows "index_raise st (np_get xs v) \<or> (\<exists>y. np_get xs v = Return y)"
  using np_index_cases [OF assms, of "length xs"]
  by (auto simp: np_get_def intro: index_raise_obind)

subsection \<open>Initialising the suprema with a label out of range\<close>


lemma sup_set_bad:
  assumes "sup_shape st sups" "r < length (input_nodes st)" "v \<in> set (nodes (graph st))"
    and "\<not> in_range (length (nodes (graph st))) v"
  shows "index_raise st (sup_set sups r v x)"
proof -
  have "length (sups ! r) = length (nodes (graph st))"
    using assms by (simp add: sup_shape_def list_all_length)
  with assms show ?thesis
    by (simp add: sup_set_def sup_shape_def index_raise_obind np_set_bad)
qed


lemma init_sup_bad:
  assumes "sup_shape st sups" "set is \<subseteq> set (input_nodes st)" "is \<noteq> []"
    and "v \<in> set (nodes (graph st))" "\<not> in_range (length (nodes (graph st))) v"
  shows "index_raise st (init_sup st P L sups v is)"
proof -
  from assms(3) obtain i is' where is': "is = i # is'" by (cases "is") auto
  with assms obtain r where r: "dict_get (vertex2index st) i = Return r" "r < length (input_nodes st)"
    using vertex2index_input [of i st] by auto
  have bad: "\<And>x. index_raise st (sup_set sups r v x)"
    using sup_set_bad [OF assms(1) r(2) assms(4,5)] .
  from np_get_cases [OF assms(4), of P] show ?thesis
  proof
    assume "index_raise st (np_get P v)"
    then show ?thesis unfolding is' by (simp add: index_raise_obind)
  next
    assume "\<exists>p. np_get P v = Return p"
    then obtain p where p: "np_get P v = Return p" by blast
    let ?m = "if i = p then obind (np_get L v) (\<lambda>l. sup_set sups r v l)
            else sup_set sups r v (length (nodes (graph st)))"
    have step: "init_sup st P L sups v (i # is') = obind ?m (\<lambda>sups. init_sup st P L sups v is')"
      using p r by simp
    have "index_raise st ?m"
    proof (cases "i = p")
      case False
      with bad show ?thesis by simp
    next
      case True
      from np_get_cases [OF assms(4), of L] show ?thesis
      proof
        assume "index_raise st (np_get L v)"
        with True show ?thesis by (simp add: index_raise_obind)
      next
        assume "\<exists>l. np_get L v = Return l"
        then obtain l where "np_get L v = Return l" by blast
        with True bad [of l] show ?thesis by simp
      qed
    qed
    then show ?thesis unfolding is' step by (rule index_raise_obind)
  qed
qed



subsection \<open>Graphs\<close>

lemma set_uniq: "set (uniq acc xs) = set acc \<union> set xs"
  by (induction xs arbitrary: acc) (auto simp: ins_def)

lemma distinct_uniq: "distinct acc \<Longrightarrow> distinct (uniq acc xs)"
  by (induction xs arbitrary: acc) (auto simp: ins_def)

lemma distinct_adj: "distinct (adj g v)"
  by (simp add: adj_def distinct_uniq)

lemma adj_in_nodes: "w \<in> set (adj g v) \<Longrightarrow> w \<in> set (nodes g)"
  by (fastforce simp: adj_def nodes_def set_uniq split: if_splits)

subsection \<open>The influencing-walk traversal\<close>

lemma traverse_neighbors_no_match:
  assumes "dict_get f v = Return fv" "fv \<notin> set ws \<or> fv = v"
  shows "traverse_neighbors n st f sups status v ws = obind (np_set status v 2) (\<lambda>status. Return (sups, status))"
  using assms by (induction ws) auto

lemma traverse_neighbors_match:
  assumes "dict_get f v = Return fv" "distinct ws" "fv \<in> set ws" "fv \<noteq> v"
  shows "traverse_neighbors n st f sups status v ws = after_successor n st f sups status v fv"
  using assms
proof (induction ws)
  case Nil
  then show ?case by simp
next
  case (Cons w ws)
  show ?case
  proof (cases "w = fv")
    case True
    with Cons.prems have "fv \<notin> set ws" by simp
    then have rest: "\<And>sups status. traverse_neighbors n st f sups status v ws
        = obind (np_set status v 2) (\<lambda>status. Return (sups, status))"
      using traverse_neighbors_no_match [OF Cons.prems(1)] by blast
    show ?thesis
      using True Cons.prems by (simp add: after_successor_def rest cong: if_cong)
  next
    case False
    with Cons show ?thesis by simp
  qed
qed

lemma zeros_update:
  assumes "k < length xs" "xs ! k = 0"
  shows "zeros (xs[k := Suc 0]) < zeros xs"
proof -
  have "{j. j < length (xs[k := Suc 0]) \<and> xs[k := Suc 0] ! j = 0} \<subset> {j. j < length xs \<and> xs ! j = 0}"
    using assms by (auto simp: nth_list_update)
  then show ?thesis
    unfolding zeros_def by (intro psubset_card_mono) auto
qed

lemma zeros_le: "zeros xs \<le> length xs"
proof -
  have "card {k. k < length xs \<and> xs ! k = 0} \<le> card {..<length xs}"
    by (intro card_mono) auto
  then show ?thesis by (simp add: zeros_def)
qed

lemma wf_labelsD: "wf_labels st \<Longrightarrow> v \<in> set (nodes (graph st)) \<Longrightarrow> 0 \<le> v \<and> v < int (length (nodes (graph st)))"
  by (simp add: wf_labels_def list_all_iff)

lemma np_get_ok: "0 \<le> v \<Longrightarrow> v < int (length xs) \<Longrightarrow> np_get xs v = Return (xs ! nat v)"
  by (simp add: np_get_def np_index_def)

lemma np_set_ok: "0 \<le> v \<Longrightarrow> v < int (length xs) \<Longrightarrow> np_set xs v x = Return (xs[nat v := x])"
  by (simp add: np_set_def np_index_def)

lemma sup_row: "sup_shape st sups \<Longrightarrow> r < length (input_nodes st) \<Longrightarrow> length (sups ! r) = length (nodes (graph st))"
  by (simp add: sup_shape_def list_all_length)

lemma sup_get_ok:
  assumes "sup_shape st sups" "r < length (input_nodes st)" "0 \<le> v" "v < int (length (nodes (graph st)))"
  shows "\<exists>a. sup_get sups r v = Return a"
  using assms sup_row [OF assms(1,2)] by (simp add: sup_get_def np_get_ok sup_shape_def)

lemma sup_set_ok:
  assumes "sup_shape st sups" "r < length (input_nodes st)" "0 \<le> v" "v < int (length (nodes (graph st)))"
  shows "\<exists>sups'. sup_set sups r v x = Return sups' \<and> sup_shape st sups'"
proof -
  have row: "length (sups ! r) = length (nodes (graph st))" by (rule sup_row [OF assms(1,2)])
  have "sup_set sups r v x = Return (sups[r := (sups ! r)[nat v := x]])"
    using assms row by (simp add: sup_set_def np_set_ok sup_shape_def)
  moreover have "sup_shape st (sups[r := (sups ! r)[nat v := x]])"
    using assms(1,2) row by (auto simp: sup_shape_def list_all_length nth_list_update)
  ultimately show ?thesis by blast
qed

lemma tighten_ok:
  assumes "sup_shape st sups" "set is \<subseteq> set (input_nodes st)"
    and "0 \<le> v" "v < int (length (nodes (graph st)))" "0 \<le> w" "w < int (length (nodes (graph st)))"
  shows "\<exists>sups'. tighten st sups v w is = Return sups' \<and> sup_shape st sups'"
  using assms(1,2)
proof (induction "is" arbitrary: sups)
  case Nil
  then show ?case by simp
next
  case (Cons i "is")
  from Cons.prems obtain r where r: "dict_get (vertex2index st) i = Return r" "r < length (input_nodes st)"
    using vertex2index_input [of i st] by auto
  from sup_get_ok [OF Cons.prems(1) r(2) assms(3,4)] obtain a where a: "sup_get sups r v = Return a" by blast
  from sup_get_ok [OF Cons.prems(1) r(2) assms(5,6)] obtain b where b: "sup_get sups r w = Return b" by blast
  from sup_set_ok [OF Cons.prems(1) r(2) assms(3,4), of b]
  obtain sups1 where s1: "sup_set sups r v b = Return sups1" "sup_shape st sups1" by blast
  show ?case
  proof (cases "a > b")
    case True
    from Cons.IH [OF s1(2)] Cons.prems(2) r a b s1 True show ?thesis by simp
  next
    case False
    from Cons.IH [OF Cons.prems(1)] Cons.prems(2) r a b False show ?thesis by simp
  qed
qed

lemma walk_pre_update:
  assumes "walk_pre st f sups status" "sup_shape st sups'" "k < length status" "x \<noteq> 0"
    and "\<forall>u\<in>set (nodes (graph st)). nat u = k \<longrightarrow> x = 1 \<or> settles st f u"
  shows "walk_pre st f sups' (status[k := x])"
  using assms by (auto simp: walk_pre_def settled_inv_def stat_def nth_list_update)

lemma traverse_ok:
  assumes "sup_pre st f"
  shows "walk_pre st f sups status \<Longrightarrow> v \<in> set (nodes (graph st)) \<Longrightarrow> stat status v = 0
         \<Longrightarrow> zeros status < fuel
         \<Longrightarrow> \<exists>sups' status'. traverse_infl_walk fuel st f sups status v = Return (sups', status')
                \<and> walk_post st f status v sups' status'"
proof (induction fuel arbitrary: sups status v)
  case 0
  then show ?case by simp
next
  case (Suc m)
  let ?n = "length (nodes (graph st))"
  let ?g = "graph st"
  from assms have wf: "wf_labels st" by (simp add: sup_pre_def)
  note pre = Suc.prems(1)
  from pre have len: "length status = ?n" and shape: "sup_shape st sups"
    by (simp_all add: walk_pre_def)
  from wf Suc.prems(2) have vr: "0 \<le> v" "v < int ?n"
    by (auto dest: wf_labelsD)
  from vr have nv: "nat v < ?n" by linarith
  have inj: "\<And>u. u \<in> set (nodes ?g) \<Longrightarrow> nat u = nat v \<Longrightarrow> u = v"
    using wf vr by (auto dest: wf_labelsD)
  from pre Suc.prems(2,3) have vout: "v \<notin> set (output_nodes st)"
    by (auto simp: walk_pre_def)
  with Suc.prems(2) assms obtain fv where fv: "map_of f v = Some fv"
    by (auto simp: sup_pre_def non_output_nodes_def)
  then have dfv: "dict_get f v = Return fv" by (simp add: dict_get_def)
  define status1 where "status1 = status[nat v := Suc 0]"
  have len1: "length status1 = ?n" by (simp add: status1_def len)
  have set1: "np_set status v (Suc 0) = Return status1"
    using vr len by (simp add: np_set_ok status1_def)
  have nb: "neighbors ?g v = Return (adj ?g v)"
    using Suc.prems(2) by (simp add: neighbors_def)
  have z1: "zeros status1 < m"
    using zeros_update [of "nat v" status] Suc.prems(3,4) nv len
    by (simp add: status1_def stat_def)
  have pre1: "walk_pre st f sups status1"
    unfolding status1_def by (rule walk_pre_update [OF pre shape]) (simp_all add: len nv)
  have at_v1: "status1 ! nat v = 1" using vr len by (simp add: status1_def)
  have other1: "\<And>k. k \<noteq> nat v \<Longrightarrow> status1 ! k = status ! k" by (simp add: status1_def)
  have v0: "status ! nat v = 0" using Suc.prems(3) by (simp add: stat_def)
  have unfold: "traverse_infl_walk (Suc m) st f sups status v
      = traverse_neighbors m st f sups status1 v (adj ?g v)"
    by (simp add: set1 nb)
  show ?case
  proof (cases "fv \<in> set (adj ?g v) \<and> fv \<noteq> v")
    case False
    then have stop: "settles st f v" using fv by (auto intro: settles_stop)
    from False have "traverse_neighbors m st f sups status1 v (adj ?g v)
        = obind (np_set status1 v 2) (\<lambda>status. Return (sups, status))"
      by (intro traverse_neighbors_no_match [OF dfv]) auto
    then have res: "traverse_infl_walk (Suc m) st f sups status v = Return (sups, status1[nat v := 2])"
      using unfold vr len1 by (simp add: np_set_ok)
    have "walk_pre st f sups (status1[nat v := 2])"
      by (rule walk_pre_update [OF pre1 shape]) (use stop inj len1 nv in auto)
    then have "walk_post st f status v sups (status1[nat v := 2])"
      using vr len len1 v0 other1
      by (auto simp: walk_post_def stat_def nth_list_update)
    with res show ?thesis by blast
  next
    case True
    then have fvn: "fv \<in> set (nodes ?g)" by (auto dest: adj_in_nodes)
    with wf have fvr: "0 \<le> fv" "fv < int ?n" by (auto dest: wf_labelsD)
    have eq: "traverse_infl_walk (Suc m) st f sups status v = after_successor m st f sups status1 v fv"
      using unfold traverse_neighbors_match [OF dfv distinct_adj] True by simp
    have "\<exists>sups2 status2.
        (if stat status1 fv = 0 then traverse_infl_walk m st f sups status1 fv else Return (sups, status1))
          = Return (sups2, status2) \<and> walk_post st f status1 fv sups2 status2"
    proof (cases "stat status1 fv = 0")
      case True
      from Suc.IH [OF pre1 fvn True z1] True show ?thesis by simp
    next
      case False
      with pre1 have "walk_post st f status1 fv sups status1"
        by (simp add: walk_post_def)
      with False show ?thesis by simp
    qed
    then obtain sups2 status2 where
      m1: "(if stat status1 fv = 0 then traverse_infl_walk m st f sups status1 fv else Return (sups, status1))
          = Return (sups2, status2)"
      and m2: "walk_post st f status1 fv sups2 status2" by blast
    from m2 have pre2: "walk_pre st f sups2 status2"
      and keep2: "\<And>k. k < ?n \<Longrightarrow> status1 ! k \<noteq> 0 \<Longrightarrow> status2 ! k = status1 ! k"
      and fv2: "stat status2 fv \<noteq> 0"
      and pend2: "stat status2 fv \<noteq> 1 \<Longrightarrow> (\<forall>k<?n. status2 ! k = 1 \<longrightarrow> status1 ! k = 1)"
      by (simp_all add: walk_post_def len1)
    from pre2 have len2: "length status2 = ?n" and shape2: "sup_shape st sups2"
      by (simp_all add: walk_pre_def)
    have at_v2: "status2 ! nat v = 1" using keep2 [of "nat v"] at_v1 vr by simp
    have keep: "\<And>k. k < ?n \<Longrightarrow> status ! k \<noteq> 0 \<Longrightarrow> status2 ! k = status ! k"
    proof -
      fix k assume k: "k < ?n" "status ! k \<noteq> 0"
      with v0 have "k \<noteq> nat v" by auto
      with k keep2 [of k] other1 [of k] show "status2 ! k = status ! k" by simp
    qed
    have g1: "np_get status1 fv = Return (stat status1 fv)"
      using fvr len1 by (simp add: np_get_ok stat_def)
    have g2: "np_get status2 fv = Return (stat status2 fv)"
      using fvr len2 by (simp add: np_get_ok stat_def)
    show ?thesis
    proof (cases "stat status2 fv = 1")
      case True
      have res: "traverse_infl_walk (Suc m) st f sups status v = Return (sups2, status2)"
        unfolding eq after_successor_def g1 using m1 g2 True by simp
      have "walk_post st f status v sups2 status2"
        using pre2 keep at_v2 vr by (simp add: walk_post_def stat_def len)
      with res show ?thesis by blast
    next
      case False
      from tighten_ok [OF shape2 subset_refl vr fvr]
      obtain sups3 where t: "tighten st sups2 v fv (input_nodes st) = Return sups3" "sup_shape st sups3"
        by blast
      have res: "traverse_infl_walk (Suc m) st f sups status v = Return (sups3, status2[nat v := 2])"
        unfolding eq after_successor_def g1 using m1 g2 False t vr len2 by (simp add: np_set_ok)
      from pre2 fv2 False fvn have "settles st f fv"
        by (auto simp: walk_pre_def settled_inv_def)
      with True fv have sv: "settles st f v" by (auto intro: settles_step)
      have pre3: "walk_pre st f sups3 (status2[nat v := 2])"
        by (rule walk_pre_update [OF pre2 t(2)]) (use sv inj len2 nv in auto)
      have pend3: "status ! k = 1" if k: "k < ?n" "status2[nat v := 2] ! k = 1" for k
      proof -
        from k have kv: "k \<noteq> nat v" using len2 by (auto simp: nth_list_update split: if_splits)
        with k have "status2 ! k = 1" by simp
        with pend2 [OF False] k have "status1 ! k = 1" by simp
        with kv other1 show "status ! k = 1" by simp
      qed
      have keep3: "status2[nat v := 2] ! k = status ! k" if k: "k < ?n" "status ! k \<noteq> 0" for k
      proof -
        from k v0 have "k \<noteq> nat v" by auto
        with keep [OF k] show ?thesis by simp
      qed
      have at_v3: "status2[nat v := 2] ! nat v \<noteq> 0" using nv len2 by simp
      have "walk_post st f status v sups3 (status2[nat v := 2])"
        unfolding walk_post_def stat_def len
        using pre3 pend3 keep3 at_v3 by blast
      with res show ?thesis by blast
    qed
  qed
qed

subsection \<open>Initialising and computing the suprema with labels in range\<close>

lemma init_sup_ok:
  assumes "wf_labels st" "v \<in> set (nodes (graph st))"
    and "length P = length (nodes (graph st))" "length L = length (nodes (graph st))"
  shows "sup_shape st sups \<Longrightarrow> set is \<subseteq> set (input_nodes st)
         \<Longrightarrow> \<exists>sups'. init_sup st P L sups v is = Return sups' \<and> sup_shape st sups'"
proof (induction "is" arbitrary: sups)
  case Nil
  then show ?case by simp
next
  case (Cons i "is")
  from assms(1,2) have vr: "0 \<le> v" "v < int (length (nodes (graph st)))"
    by (auto dest: wf_labelsD)
  from Cons.prems obtain r where r: "dict_get (vertex2index st) i = Return r" "r < length (input_nodes st)"
    using vertex2index_input [of i st] by auto
  have p: "np_get P v = Return (P ! nat v)" and l: "np_get L v = Return (L ! nat v)"
    using vr assms(3,4) by (simp_all add: np_get_ok)
  let ?x = "if i = P ! nat v then L ! nat v else length (nodes (graph st))"
  from sup_set_ok [OF Cons.prems(1) r(2) vr, of ?x]
  obtain sups1 where s1: "sup_set sups r v ?x = Return sups1" "sup_shape st sups1" by blast
  from Cons.IH [OF s1(2)] Cons.prems(2) obtain sups' where
    "init_sup st P L sups1 v is = Return sups'" "sup_shape st sups'" by auto
  with p l r s1 show ?case by (cases "i = P ! nat v") auto
qed

lemma init_loop_ok:
  assumes "wf_labels st"
    and "length P = length (nodes (graph st))" "length L = length (nodes (graph st))"
  shows "sup_shape st sups \<Longrightarrow> init_inv st status \<Longrightarrow> set vs \<subseteq> set (nodes (graph st))
    \<Longrightarrow> \<exists>sups' status'. init_loop st P L sups status vs = Return (sups', status')
          \<and> sup_shape st sups' \<and> init_inv st status'
          \<and> (\<forall>u\<in>set (nodes (graph st)). u \<in> set (output_nodes st)
                \<longrightarrow> u \<in> set vs \<or> stat status u \<noteq> 0 \<longrightarrow> stat status' u \<noteq> 0)"
proof (induction vs arbitrary: sups status)
  case Nil
  then show ?case by simp
next
  case (Cons v vs)
  let ?n = "length (nodes (graph st))"
  from Cons.prems have vn: "v \<in> set (nodes (graph st))" by simp
  with assms(1) have vr: "0 \<le> v" "v < int ?n" by (auto dest: wf_labelsD)
  then have nv: "nat v < ?n" by linarith
  have inj: "\<And>u. u \<in> set (nodes (graph st)) \<Longrightarrow> nat u = nat v \<Longrightarrow> u = v"
    using assms(1) vr by (auto dest: wf_labelsD)
  from Cons.prems(2) have len: "length status = ?n" by (simp add: init_inv_def)
  from init_sup_ok [OF assms(1) vn assms(2,3) Cons.prems(1) subset_refl]
  obtain sups1 where s1: "init_sup st P L sups v (input_nodes st) = Return sups1" "sup_shape st sups1"
    by blast
  let ?x = "if v \<in> set (output_nodes st) then 2 else 0 :: nat"
  define status1 where "status1 = status[nat v := ?x]"
  have set1: "np_set status v ?x = Return status1"
    using vr len by (simp add: np_set_ok status1_def)
  have inv1: "init_inv st status1"
    using Cons.prems(2) nv inj
    by (auto simp: init_inv_def status1_def stat_def nth_list_update)
  from Cons.IH [OF s1(2) inv1] Cons.prems(3)
  obtain sups' status' where r: "init_loop st P L sups1 status1 vs = Return (sups', status')"
    "sup_shape st sups'" "init_inv st status'"
    "\<forall>u\<in>set (nodes (graph st)). u \<in> set (output_nodes st)
                \<longrightarrow> u \<in> set vs \<or> stat status1 u \<noteq> 0 \<longrightarrow> stat status' u \<noteq> 0"
    by auto
  have "\<forall>u\<in>set (nodes (graph st)). u \<in> set (output_nodes st)
                \<longrightarrow> u \<in> set (v # vs) \<or> stat status u \<noteq> 0 \<longrightarrow> stat status' u \<noteq> 0"
  proof (intro ballI impI)
    fix u assume u: "u \<in> set (nodes (graph st))" "u \<in> set (output_nodes st)"
      "u \<in> set (v # vs) \<or> stat status u \<noteq> 0"
    have "u \<in> set vs \<or> stat status1 u \<noteq> 0"
    proof (cases "nat u = nat v")
      case True
      with inj u have "u = v" by simp
      with u nv len show ?thesis by (simp add: status1_def stat_def)
    next
      case False
      with u show ?thesis by (auto simp: status1_def stat_def)
    qed
    with r(4) u show "stat status' u \<noteq> 0" by blast
  qed
  with r s1 set1 show ?case by simp
qed

lemma init_status_ok:
  assumes "wf_labels st"
    and "length P = length (nodes (graph st))" "length L = length (nodes (graph st))"
  shows "\<exists>sups status. init_status st P L = Return (sups, status)
          \<and> walk_pre st f sups status \<and> (\<forall>k<length status. status ! k \<noteq> 1)"
proof -
  let ?n = "length (nodes (graph st))"
  have shape0: "sup_shape st (replicate (length (input_nodes st)) (np_zeros ?n))"
    by (simp add: sup_shape_def np_zeros_def list_all_length)
  have wfn: "\<And>u. u \<in> set (nodes (graph st)) \<Longrightarrow> nat u < ?n"
    using assms(1) by (auto dest!: wf_labelsD)
  then have inv0: "init_inv st (np_zeros ?n)"
    by (auto simp: init_inv_def np_zeros_def stat_def)
  from init_loop_ok [OF assms shape0 inv0 subset_refl]
  obtain sups status where r: "init_status st P L = Return (sups, status)"
    "sup_shape st sups" "init_inv st status"
    "\<forall>u\<in>set (nodes (graph st)). u \<in> set (output_nodes st) \<longrightarrow> stat status u \<noteq> 0"
    unfolding init_status_def by auto
  from r(3) have "settled_inv st f status"
    by (auto simp: init_inv_def settled_inv_def intro: settles_output)
  with r have "walk_pre st f sups status" "\<forall>k<length status. status ! k \<noteq> 1"
    by (auto simp: walk_pre_def init_inv_def)
  with r(1) show ?thesis by blast
qed

lemma zeros_mono:
  assumes "length status' = length status"
    and "\<forall>k<length status. status ! k \<noteq> 0 \<longrightarrow> status' ! k = status ! k"
  shows "zeros status' \<le> zeros status"
proof -
  have "{k. k < length status' \<and> status' ! k = 0} \<subseteq> {k. k < length status \<and> status ! k = 0}"
    using assms by auto
  then show ?thesis unfolding zeros_def by (intro card_mono) auto
qed

lemma settles_succ:
  assumes "settles st f v" "succ_edge st f v w"
  shows "settles st f w"
  using assms by (cases rule: settles.cases) (auto simp: succ_edge_def)

lemma settles_no_return:
  "settles st f v \<Longrightarrow> succ_edge st f v w \<Longrightarrow> \<not> rtranclp (succ_edge st f) w v"
proof (induction arbitrary: w rule: settles.induct)
  case (settles_output v)
  then show ?case by (simp add: succ_edge_def)
next
  case (settles_stop v w0)
  then show ?case by (auto simp: succ_edge_def)
next
  case (settles_step v w0)
  from settles_step.prems settles_step.hyps(1) have w: "w = w0" by (simp add: succ_edge_def)
  show ?case
  proof
    assume "rtranclp (succ_edge st f) w v"
    with w have "rtranclp (succ_edge st f) w0 v" by simp
    then show False
    proof (cases rule: converse_rtranclpE)
      case base
      with settles_step.hyps(3) show False by simp
    next
      case (step z)
      from step(2) settles_step.prems w have "rtranclp (succ_edge st f) z w0"
        by (auto intro: rtranclp.rtrancl_into_rtrancl)
      with settles_step.IH [OF step(1)] show False by simp
    qed
  qed
qed


lemma after_successor_pending:
  assumes "after_successor m st f sups status v w = Return (sups', status')"
    and "stat status' v = 1" "0 \<le> v"
  obtains s sups2 where "np_get status w = Return s"
    "(if s = 0 then traverse_infl_walk m st f sups status w else Return (sups, status))
       = Return (sups2, status')"
    "np_get status' w = Return 1"
proof -
  from assms(1) obtain s sups2 status2 s2 where
    s: "np_get status w = Return s"
    and mid: "(if s = 0 then traverse_infl_walk m st f sups status w else Return (sups, status))
       = Return (sups2, status2)"
    and s2: "np_get status2 w = Return s2"
    and fin: "(if s2 = 1 then Return (sups2, status2)
       else obind (tighten st sups2 v w (input_nodes st)) (\<lambda>sups.
         obind (np_set status2 v 2) (\<lambda>status. Return (sups, status)))) = Return (sups', status')"
    unfolding after_successor_def by (auto elim!: obind_ReturnE)
  show ?thesis
  proof (cases "s2 = 1")
    case True
    with fin s mid s2 that show ?thesis by simp
  next
    case False
    with fin obtain sups3 where "np_set status2 v 2 = Return status'"
      by (auto elim!: obind_ReturnE)
    then obtain k where k: "np_index (length status2) v = Return k" "status' = status2[k := 2]"
      unfolding np_set_def by (auto elim!: obind_ReturnE)
    from k(1) assms(3) have "k = nat v" "k < length status2"
      by (auto simp: np_index_def split: if_splits)
    with k(2) have "stat status' v = 2" by (simp add: stat_def)
    with assms(2) show ?thesis by simp
  qed
qed

lemma traverse_fixes:
  assumes "sup_pre st f"
  shows "walk_pre st f sups status \<Longrightarrow> v \<in> set (nodes (graph st)) \<Longrightarrow> stat status v = 0
         \<Longrightarrow> zeros status < fuel \<Longrightarrow> settles st f v \<Longrightarrow> clear_of_pending st f status v
         \<Longrightarrow> traverse_infl_walk fuel st f sups status v = Return (sups', status')
         \<Longrightarrow> stat status' v \<noteq> 1"
proof (induction fuel arbitrary: sups status v sups' status')
  case 0
  then show ?case by simp
next
  case (Suc m)
  let ?n = "length (nodes (graph st))"
  let ?g = "graph st"
  from assms have wf: "wf_labels st" by (simp add: sup_pre_def)
  note pre = Suc.prems(1)
  from pre have len: "length status = ?n" and shape: "sup_shape st sups"
    by (simp_all add: walk_pre_def)
  from wf Suc.prems(2) have vr: "0 \<le> v" "v < int ?n"
    by (auto dest: wf_labelsD)
  from vr have nv: "nat v < ?n" by linarith
  have inj: "\<And>u. u \<in> set (nodes ?g) \<Longrightarrow> nat u = nat v \<Longrightarrow> u = v"
    using wf vr by (auto dest: wf_labelsD)
  from pre Suc.prems(2,3) have vout: "v \<notin> set (output_nodes st)"
    by (auto simp: walk_pre_def)
  with Suc.prems(2) assms obtain fv where fv: "map_of f v = Some fv"
    by (auto simp: sup_pre_def non_output_nodes_def)
  then have dfv: "dict_get f v = Return fv" by (simp add: dict_get_def)
  define status1 where "status1 = status[nat v := Suc 0]"
  have len1: "length status1 = ?n" by (simp add: status1_def len)
  have set1: "np_set status v (Suc 0) = Return status1"
    using vr len by (simp add: np_set_ok status1_def)
  have nb: "neighbors ?g v = Return (adj ?g v)"
    using Suc.prems(2) by (simp add: neighbors_def)
  have z1: "zeros status1 < m"
    using zeros_update [of "nat v" status] Suc.prems(3,4) nv len
    by (simp add: status1_def stat_def)
  have pre1: "walk_pre st f sups status1"
    unfolding status1_def by (rule walk_pre_update [OF pre shape]) (simp_all add: len nv)
  have unfold: "traverse_infl_walk (Suc m) st f sups status v
      = traverse_neighbors m st f sups status1 v (adj ?g v)"
    by (simp add: set1 nb)
  show ?case
  proof (cases "fv \<in> set (adj ?g v) \<and> fv \<noteq> v")
    case False
    then have "traverse_neighbors m st f sups status1 v (adj ?g v)
        = obind (np_set status1 v 2) (\<lambda>status. Return (sups, status))"
      by (intro traverse_neighbors_no_match [OF dfv]) auto
    with Suc.prems(7) have "status' = status1[nat v := 2]"
      using unfold vr len1 by (simp add: np_set_ok)
    with nv len1 show ?thesis by (simp add: stat_def)
  next
    case True
    then have fvn: "fv \<in> set (nodes ?g)" by (auto dest: adj_in_nodes)
    with wf have fvr: "0 \<le> fv" "fv < int ?n" by (auto dest: wf_labelsD)
    from True vout fv have edge: "succ_edge st f v fv" by (simp add: succ_edge_def)
    have ne: "nat fv \<noteq> nat v" using True fvr vr by auto
    have eq: "after_successor m st f sups status1 v fv = Return (sups', status')"
      using unfold traverse_neighbors_match [OF dfv distinct_adj] True Suc.prems(7) by simp
    show ?thesis
    proof
      assume pend: "stat status' v = 1"
      from after_successor_pending [OF eq pend vr(1)] obtain s sups2 where
        s: "np_get status1 fv = Return s"
        and mid: "(if s = 0 then traverse_infl_walk m st f sups status1 fv else Return (sups, status1))
           = Return (sups2, status')"
        and s': "np_get status' fv = Return 1" by blast
      from s fvr len1 have sv: "s = stat status1 fv" by (simp add: np_get_ok stat_def)
      show False
      proof (cases "s = 0")
        case True
        with mid have rec: "traverse_infl_walk m st f sups status1 fv = Return (sups2, status')" by simp
        from traverse_ok [OF assms pre1 fvn _ z1] True sv rec
        have "walk_post st f status1 fv sups2 status'" by auto
        then have "length status' = ?n" by (simp add: walk_post_def walk_pre_def)
        with s' fvr have p: "stat status' fv = 1" by (simp add: np_get_ok stat_def)
        have clear1: "clear_of_pending st f status1 fv"
          unfolding clear_of_pending_def
        proof (intro ballI impI)
          fix u assume u: "u \<in> set (nodes ?g)" "stat status1 u = 1"
          show "\<not> rtranclp (succ_edge st f) fv u"
          proof (cases "u = v")
            case True
            with settles_no_return [OF Suc.prems(5) edge] show ?thesis by simp
          next
            case False
            with inj [OF u(1)] have "nat u \<noteq> nat v" by auto
            with u(2) have "stat status u = 1" by (simp add: status1_def stat_def)
            with Suc.prems(6) u(1) have "\<not> rtranclp (succ_edge st f) v u"
              by (simp add: clear_of_pending_def)
            with edge show ?thesis by (auto intro: converse_rtranclp_into_rtranclp)
          qed
        qed
        from Suc.IH [OF pre1 fvn _ z1 settles_succ [OF Suc.prems(5) edge] clear1 rec] True sv
        have "stat status' fv \<noteq> 1" by simp
        with p show False by simp
      next
        case False
        with mid have "status' = status1" by simp
        with s' fvr len1 have "stat status1 fv = 1" by (simp add: np_get_ok stat_def)
        with ne have "stat status fv = 1" by (simp add: status1_def stat_def)
        with Suc.prems(6) fvn edge show False
          by (auto simp: clear_of_pending_def)
      qed
    qed
  qed
qed

lemma suprema_loop_char:
  assumes "sup_pre st f"
  shows "walk_pre st f sups status \<Longrightarrow> \<forall>k<length status. status ! k \<noteq> 1
    \<Longrightarrow> zeros status < fuel \<Longrightarrow> set vs \<subseteq> set (non_output_nodes st)
    \<Longrightarrow> (if \<forall>u\<in>set vs. settles st f u
         then \<exists>sups'. suprema_loop fuel st f sups status vs = Return (Some sups')
         else suprema_loop fuel st f sups status vs = Return None)"
proof (induction vs arbitrary: sups status)
  case Nil
  then show ?case by simp
next
  case (Cons v vs)
  let ?n = "length (nodes (graph st))"
  from assms have wf: "wf_labels st" by (simp add: sup_pre_def)
  from Cons.prems(4) have vn: "v \<in> set (nodes (graph st))" by (simp add: non_output_nodes_def)
  with wf have vr: "0 \<le> v" "v < int ?n" by (auto dest: wf_labelsD)
  then have nv: "nat v < ?n" by linarith
  from Cons.prems(1) have len: "length status = ?n" by (simp add: walk_pre_def)
  have g: "np_get status v = Return (stat status v)"
    using vr len by (simp add: np_get_ok stat_def)
  from Cons.prems(4) have vs: "set vs \<subseteq> set (non_output_nodes st)" by simp
  show ?case
  proof (cases "stat status v = 0")
    case True
    from traverse_ok [OF assms(1) Cons.prems(1) vn True Cons.prems(3)]
    obtain sups' status' where t: "traverse_infl_walk fuel st f sups status v = Return (sups', status')"
      "walk_post st f status v sups' status'" by blast
    from t(2) have pre': "walk_pre st f sups' status'" by (simp add: walk_post_def)
    then have len': "length status' = ?n" by (simp add: walk_pre_def)
    have g': "np_get status' v = Return (stat status' v)"
      using vr len' by (simp add: np_get_ok stat_def)
    have clear: "clear_of_pending st f status v"
      using Cons.prems(2) wf len
      by (auto simp: clear_of_pending_def stat_def dest!: wf_labelsD)
    show ?thesis
    proof (cases "stat status' v = 1")
      case True
      with traverse_fixes [OF assms(1) Cons.prems(1) vn \<open>stat status v = 0\<close> Cons.prems(3) _ clear t(1)]
      have "\<not> settles st f v" by blast
      moreover have "suprema_loop fuel st f sups status (v # vs) = Return None"
        using g g' t(1) \<open>stat status v = 0\<close> True by simp
      ultimately show ?thesis by simp
    next
      case False
      with t(2) Cons.prems(2) have nopend: "\<forall>k<length status'. status' ! k \<noteq> 1"
        by (auto simp: walk_post_def len len')
      from t(2) False pre' vn have sv: "settles st f v"
        by (auto simp: walk_post_def walk_pre_def settled_inv_def)
      have z': "zeros status' < fuel"
        using zeros_mono [of status' status] t(2) Cons.prems(3) len len'
        by (simp add: walk_post_def)
      have step: "suprema_loop fuel st f sups status (v # vs) = suprema_loop fuel st f sups' status' vs"
        using g g' t(1) \<open>stat status v = 0\<close> False by simp
      from Cons.IH [OF pre' nopend z' vs] sv show ?thesis unfolding step by simp
    qed
  next
    case False
    from Cons.prems(2) nv len have n1: "stat status v \<noteq> 1" by (simp add: stat_def)
    with False Cons.prems(1) vn have sv: "settles st f v"
      by (auto simp: walk_pre_def settled_inv_def)
    have step: "suprema_loop fuel st f sups status (v # vs) = suprema_loop fuel st f sups status vs"
      using g False n1 by simp
    from Cons.IH [OF Cons.prems(1,2,3) vs] sv show ?thesis unfolding step by simp
  qed
qed

subsection \<open>More fuel does not change a result\<close>

lemma fuel_le_refl: "fuel_le a a"
  by (simp add: fuel_le_def)

lemma fuel_le_bot: "fuel_le OutOfFuel a"
  by (simp add: fuel_le_def)

lemma fuel_le_obind:
  assumes "fuel_le m m'" "\<And>x. fuel_le (k x) (k' x)"
  shows "fuel_le (obind m k) (obind m' k')"
proof (cases m)
  case (Return x)
  with assms(1) have "m' = Return x" by (simp add: fuel_le_def)
  with Return assms(2) show ?thesis by simp
next
  case (Raise e)
  with assms(1) have "m' = Raise e" by (simp add: fuel_le_def)
  with Raise show ?thesis by (simp add: fuel_le_def)
next
  case OutOfFuel
  then show ?thesis by (simp add: fuel_le_def)
qed

lemma fuel_le_if:
  assumes "c \<Longrightarrow> fuel_le a a'" "\<not> c \<Longrightarrow> fuel_le b b'"
  shows "fuel_le (if c then a else b) (if c then a' else b')"
  using assms by simp

lemma fuel_le_prod:
  assumes "\<And>a b. fuel_le (f a b) (g a b)"
  shows "fuel_le (case p of (a, b) \<Rightarrow> f a b) (case p of (a, b) \<Rightarrow> g a b)"
  using assms by (cases p) simp

lemma fuel_le_option:
  assumes "fuel_le a a'" "\<And>x. fuel_le (f x) (g x)"
  shows "fuel_le (case p of None \<Rightarrow> a | Some x \<Rightarrow> f x) (case p of None \<Rightarrow> a' | Some x \<Rightarrow> g x)"
  using assms by (cases p) simp_all

lemmas fuel_le_intros = fuel_le_obind fuel_le_if fuel_le_prod fuel_le_option fuel_le_refl

lemma search_neighbors_mono:
  assumes "\<And>fam visited v. fuel_le (augmented_search n st fam iter visited v) (augmented_search m st fam iter visited v)"
  shows "fuel_le (search_neighbors n st fam iter visited v ws) (search_neighbors m st fam iter visited v ws)"
proof (induction ws arbitrary: fam visited)
  case Nil
  show ?case by (simp add: fuel_le_refl)
next
  case (Cons w ws)
  show ?case
    unfolding search_neighbors.simps
    by (intro fuel_le_intros assms Cons.IH)
qed

lemma augmented_search_step:
  assumes "\<And>fam visited v. fuel_le (augmented_search n st fam iter visited v) (augmented_search m st fam iter visited v)"
  shows "fuel_le (augmented_search (Suc n) st fam iter visited v) (augmented_search (Suc m) st fam iter visited v)"
  unfolding augmented_search.simps
  by (intro fuel_le_intros assms search_neighbors_mono)

lemma augmented_search_mono:
  "n \<le> m \<Longrightarrow> fuel_le (augmented_search n st fam iter visited v) (augmented_search m st fam iter visited v)"
proof (induction n arbitrary: m fam visited v)
  case 0
  show ?case by (simp add: fuel_le_bot)
next
  case (Suc n)
  then obtain m' where m: "m = Suc m'" "n \<le> m'" by (cases m) auto
  show ?case unfolding m by (rule augmented_search_step) (rule Suc.IH [OF m(2)])
qed

lemma path_cover_loop_mono:
  "n \<le> m \<Longrightarrow> fuel_le (path_cover_loop n st fam iter visited is) (path_cover_loop m st fam iter visited is)"
proof (induction "is" arbitrary: fam iter visited)
  case Nil
  show ?case by (simp add: fuel_le_refl)
next
  case (Cons i "is")
  show ?case unfolding path_cover_loop.simps
    by (intro fuel_le_intros augmented_search_mono Cons)
qed

lemma build_path_cover_mono: "n \<le> m \<Longrightarrow> fuel_le (build_path_cover n st) (build_path_cover m st)"
  unfolding build_path_cover_def by (rule path_cover_loop_mono)

lemma chain_walk_mono:
  "n \<le> m \<Longrightarrow> fuel_le (chain_walk n st C i v l r) (chain_walk m st C i v l r)"
proof (induction n arbitrary: m v l r)
  case 0
  show ?case by (cases r) (simp add: fuel_le_bot)
next
  case (Suc n)
  then obtain m' where m: "m = Suc m'" "n \<le> m'" by (cases m) auto
  obtain f P L where r: "r = (f, P, L)" by (cases r)
  show ?case unfolding m r chain_walk.simps
    by (intro fuel_le_intros Suc.IH [OF m(2)])
qed

lemma chain_loop_mono:
  "n \<le> m \<Longrightarrow> fuel_le (chain_loop n st C r is) (chain_loop m st C r is)"
proof (induction "is" arbitrary: r)
  case Nil
  show ?case by (simp add: fuel_le_refl)
next
  case (Cons i "is")
  show ?case unfolding chain_loop.simps
    by (intro fuel_le_intros chain_walk_mono Cons)
qed

lemma get_chain_decomposition_mono:
  "n \<le> m \<Longrightarrow> fuel_le (get_chain_decomposition n st C ks) (get_chain_decomposition m st C ks)"
  unfolding get_chain_decomposition_def by (rule chain_loop_mono)

lemma traverse_neighbors_mono:
  assumes "\<And>sups status v. fuel_le (traverse_infl_walk n st f sups status v) (traverse_infl_walk m st f sups status v)"
  shows "fuel_le (traverse_neighbors n st f sups status v ws) (traverse_neighbors m st f sups status v ws)"
proof (induction ws arbitrary: sups status)
  case Nil
  show ?case by (simp add: fuel_le_refl)
next
  case (Cons w ws)
  show ?case
    unfolding traverse_neighbors.simps
    by (intro fuel_le_intros assms Cons.IH)
qed

lemma traverse_infl_walk_mono:
  "n \<le> m \<Longrightarrow> fuel_le (traverse_infl_walk n st f sups status v) (traverse_infl_walk m st f sups status v)"
proof (induction n arbitrary: m sups status v)
  case 0
  show ?case by (simp add: fuel_le_bot)
next
  case (Suc n)
  then obtain m' where m: "m = Suc m'" "n \<le> m'" by (cases m) auto
  show ?case unfolding m traverse_infl_walk.simps
    by (intro fuel_le_intros traverse_neighbors_mono Suc.IH [OF m(2)])
qed

lemma suprema_loop_mono:
  "n \<le> m \<Longrightarrow> fuel_le (suprema_loop n st f sups status vs) (suprema_loop m st f sups status vs)"
proof (induction vs arbitrary: sups status)
  case Nil
  show ?case by (simp add: fuel_le_refl)
next
  case (Cons v vs)
  show ?case unfolding suprema_loop.simps
    by (intro fuel_le_intros traverse_infl_walk_mono Cons)
qed

lemma compute_suprema_mono:
  "n \<le> m \<Longrightarrow> fuel_le (compute_suprema n st f P L vs) (compute_suprema m st f P L vs)"
  unfolding compute_suprema_def by (intro fuel_le_intros suprema_loop_mono)

lemma topo_loop_mono:
  "n \<le> m \<Longrightarrow> fuel_le (topo_loop n g d zero) (topo_loop m g d zero)"
proof (induction n arbitrary: m d zero)
  case 0
  show ?case by (cases zero) (simp_all add: fuel_le_bot fuel_le_refl)
next
  case (Suc n)
  then obtain m' where m: "m = Suc m'" "n \<le> m'" by (cases m) auto
  show ?case
  proof (cases zero)
    case Nil
    then show ?thesis by (simp add: fuel_le_refl)
  next
    case (Cons z zs)
    show ?thesis unfolding m Cons topo_loop.simps
      by (intro fuel_le_intros Suc.IH [OF m(2)])
  qed
qed

lemma topological_sort_mono:
  "n \<le> m \<Longrightarrow> fuel_le (topological_sort n g) (topological_sort m g)"
  unfolding topological_sort_def by (rule topo_loop_mono)

lemma fuel_le_tau:
  assumes "\<And>C. fuel_le (f C) (g C)" "fuel_le a b"
  shows "fuel_le (case t of Fam C \<Rightarrow> f C | Zero \<Rightarrow> a) (case t of Fam C \<Rightarrow> g C | Zero \<Rightarrow> b)"
  using assms by (cases t) simp_all

lemma find_flow_mono:
  "n \<le> m \<Longrightarrow> fuel_le (find_flow n st sc ks vs) (find_flow m st sc ks vs)"
  unfolding find_flow_def
  by (intro fuel_le_intros fuel_le_tau build_path_cover_mono get_chain_decomposition_mono
        compute_suprema_mono topological_sort_mono)

lemma find_flow_without_check:
  assumes "find_flow fuel st sc ks vs = Return (Some r)"
  shows "find_flow fuel st False ks vs = Return (Some r)"
  using assms unfolding find_flow_def
  by (auto elim!: obind_ReturnE split: if_splits tau.splits option.splits prod.splits)

subsection \<open>The family stays inside the graph\<close>

lemma edges_in_add_edge:
  assumes "edges_in st (Some g)" "v \<in> set (nodes (graph st))" "w \<in> set (nodes (graph st))"
  shows "edges_in st (Some (add_edge g v w))"
  using assms by (auto simp: edges_in_def add_edge_def ins_def list_all_iff)

lemma edges_in_remove_edge:
  assumes "edges_in st (Some g)" "remove_edge g u w = Return g'"
  shows "edges_in st (Some g')"
  using assms by (auto simp: edges_in_def remove_edge_def list_all_iff split: if_splits)

lemma edges_in_remove_pred_edge:
  assumes "edges_in st fam" "remove_pred_edge fam v = Return g'"
  shows "edges_in st (Some g')"
  using assms
  by (auto simp: remove_pred_edge_def attr_def elim!: obind_ReturnE split: option.splits
      intro: edges_in_remove_edge)

lemma neighbors_ReturnD:
  assumes "neighbors g v = Return ws"
  shows "v \<in> set (nodes g) \<and> set ws \<subseteq> set (nodes g)"
  using assms by (auto simp: neighbors_def split: if_splits dest: adj_in_nodes)

lemma search_neighbors_edges_in:
  assumes IH: "\<And>fam visited v fam' visited' status.
      edges_in st fam \<Longrightarrow> augmented_search n st fam iter visited v = Return (fam', visited', status)
      \<Longrightarrow> edges_in st fam'"
  shows "edges_in st fam \<Longrightarrow> v \<in> set (nodes (graph st)) \<Longrightarrow> set ws \<subseteq> set (nodes (graph st))
    \<Longrightarrow> search_neighbors n st fam iter visited v ws = Return (fam', visited', status)
    \<Longrightarrow> edges_in st fam'"
proof (induction ws arbitrary: fam visited)
  case Nil
  then show ?case by simp
next
  case (Cons w ws)
  from Cons.prems have w: "w \<in> set (nodes (graph st))" and ws: "set ws \<subseteq> set (nodes (graph st))"
    by auto
  note rest = Cons.IH [OF _ Cons.prems(2) ws]
  note add = edges_in_add_edge [OF _ Cons.prems(2) w]
  from Cons.prems(4) Cons.prems(1) show ?case
    unfolding search_neighbors.simps
    apply (elim obind_ReturnE)
    apply (auto simp: attr_def split: if_splits option.splits prod.splits elim!: obind_ReturnE)
        apply (blast intro: add edges_in_remove_pred_edge IH rest)+
    done
qed

lemma augmented_search_edges_in:
  "edges_in st fam \<Longrightarrow> augmented_search n st fam iter visited v = Return (fam', visited', status)
   \<Longrightarrow> edges_in st fam'"
proof (induction n arbitrary: fam visited v fam' visited' status)
  case 0
  then show ?case by simp
next
  case (Suc n)
  have nb: "edges_in st fam'"
    if "edges_in st fam" "v \<in> set (nodes (graph st))" "set ws \<subseteq> set (nodes (graph st))"
      "search_neighbors n st fam iter visited v ws = Return (fam', visited', status)"
    for fam visited v ws fam' visited' status
    by (rule search_neighbors_edges_in [OF _ that]) (rule Suc.IH)
  have scan: "edges_in st fam'"
    if "edges_in st fam1" "obind (neighbors (graph st) v) (search_neighbors n st fam1 iter vis1 v)
          = Return (fam', visited', status)" for fam1 vis1
  proof -
    from that(2) obtain ws where ws: "neighbors (graph st) v = Return ws"
      "search_neighbors n st fam1 iter vis1 v ws = Return (fam', visited', status)"
      by (elim obind_ReturnE)
    from neighbors_ReturnD [OF ws(1)] nb [OF that(1) _ _ ws(2)] show ?thesis by blast
  qed
  from Suc.prems(2) obtain visited1 where v1: "np_set visited v iter = Return visited1"
    and body: "(if v \<in> set (output_nodes st) then Return (fam, visited1, 1)
     else obind (reroot_cond st fam iter visited1 v) (\<lambda>c.
       if c then
         obind (first_pred fam v) (\<lambda>p.
         obind (augmented_search n st fam iter visited1 p) (\<lambda>(fam, visited, status).
           if status \<noteq> 0 then
             obind (remove_pred_edge fam v) (\<lambda>_. Return (None, visited, 1))
           else obind (neighbors (graph st) v) (search_neighbors n st fam iter visited v)))
       else obind (neighbors (graph st) v) (search_neighbors n st fam iter visited1 v)))
      = Return (fam', visited', status)"
    unfolding augmented_search.simps by (elim obind_ReturnE)
  show ?case
  proof (cases "v \<in> set (output_nodes st)")
    case True
    with body Suc.prems(1) show ?thesis by simp
  next
    case False
    with body obtain c where c: "reroot_cond st fam iter visited1 v = Return c"
      and body2: "(if c then
         obind (first_pred fam v) (\<lambda>p.
         obind (augmented_search n st fam iter visited1 p) (\<lambda>(fam, visited, status).
           if status \<noteq> 0 then
             obind (remove_pred_edge fam v) (\<lambda>_. Return (None, visited, 1))
           else obind (neighbors (graph st) v) (search_neighbors n st fam iter visited v)))
       else obind (neighbors (graph st) v) (search_neighbors n st fam iter visited1 v))
        = Return (fam', visited', status)"
      by (auto elim: obind_ReturnE)
    show ?thesis
    proof (cases c)
      case False
      with body2 scan [OF Suc.prems(1)] show ?thesis by simp
    next
      case True
      with body2 obtain p fam1 vis1 st1 where p: "first_pred fam v = Return p"
        and rec: "augmented_search n st fam iter visited1 p = Return (fam1, vis1, st1)"
        and body3: "(if st1 \<noteq> 0 then
             obind (remove_pred_edge fam1 v) (\<lambda>_. Return (None, vis1, 1))
           else obind (neighbors (graph st) v) (search_neighbors n st fam1 iter vis1 v))
          = Return (fam', visited', status)"
        by (auto elim!: obind_ReturnE)
      from Suc.IH [OF Suc.prems(1) rec] have e1: "edges_in st fam1" .
      show ?thesis
      proof (cases "st1 \<noteq> 0")
        case True
        with body3 have "fam' = None" by (auto elim!: obind_ReturnE)
        then show ?thesis by (simp add: edges_in_def)
      next
        case False
        with body3 scan [OF e1] show ?thesis by simp
      qed
    qed
  qed
qed

lemma path_cover_loop_edges_in:
  "edges_in st fam \<Longrightarrow> path_cover_loop n st fam iter visited is = Return (Fam C)
   \<Longrightarrow> edges_in st (Some C)"
proof (induction "is" arbitrary: fam iter visited)
  case Nil
  then show ?case
    by (auto simp: attr_def split: option.splits if_splits elim!: obind_ReturnE)
next
  case (Cons i "is")
  from Cons.prems(2) Cons.prems(1) show ?case
    unfolding path_cover_loop.simps
    by (auto split: if_splits prod.splits elim!: obind_ReturnE
        intro: Cons.IH augmented_search_edges_in)
qed

lemma build_path_cover_edges_in:
  assumes "build_path_cover n st = Return (Fam C)"
  shows "edges_in st (Some C)"
  using assms unfolding build_path_cover_def
  by (rule path_cover_loop_edges_in [rotated]) (simp add: edges_in_def DiGraph_def)

subsection \<open>Chains\<close>

lemma chain_path_nonempty: "chain_path st C v p \<Longrightarrow> p \<noteq> []"
  by (induction rule: chain_path.induct) auto

lemma chain_path_unique: "chain_path st C v p \<Longrightarrow> chain_path st C v q \<Longrightarrow> p = q"
proof (induction arbitrary: q rule: chain_path.induct)
  case (chain_end v)
  from chain_end.prems chain_end.hyps show ?case by (cases rule: chain_path.cases) auto
next
  case (chain_step v s p)
  from chain_step.prems show ?case
  proof (cases rule: chain_path.cases)
    case chain_end
    with chain_step.hyps(1) show ?thesis by simp
  next
    case (chain_step s' p')
    with chain_step.hyps(2) have "chain_path st C s p'" by simp
    then have "p = p'" by (rule chain_step.IH)
    with chain_step(1) show ?thesis by simp
  qed
qed

lemma chain_path_suffix:
  "chain_path st C v p \<Longrightarrow> p = p1 @ x # p2 \<Longrightarrow> chain_path st C x (x # p2)"
proof (induction arbitrary: p1 rule: chain_path.induct)
  case (chain_end v)
  then show ?case by (cases p1) (auto intro: chain_path.chain_end)
next
  case (chain_step v s p)
  show ?case
  proof (cases p1)
    case Nil
    with chain_step.prems chain_step.hyps show ?thesis
      by (auto intro: chain_path.chain_step)
  next
    case (Cons a p1')
    with chain_step.prems have "p = p1' @ x # p2" by simp
    then show ?thesis by (rule chain_step.IH)
  qed
qed

lemma chain_path_distinct: "chain_path st C v p \<Longrightarrow> distinct p"
proof (induction rule: chain_path.induct)
  case (chain_end v)
  show ?case by simp
next
  case (chain_step v s p)
  have "v \<notin> set p"
  proof
    assume "v \<in> set p"
    then obtain p1 p2 where p: "p = p1 @ v # p2" by (auto simp: in_set_conv_decomp)
    from chain_path_suffix [OF chain_step.hyps(3) p] have "chain_path st C v (v # p2)" .
    moreover have "chain_path st C v (v # p)"
      using chain_step.hyps by (auto intro: chain_path.chain_step)
    ultimately have "v # p2 = v # p" by (rule chain_path_unique)
    with p show False by simp
  qed
  with chain_step.IH show ?case by simp
qed

lemma chain_succ_edge:
  assumes "chain_succ C v = Some s"
  shows "(v, s) \<in> set (dg_edges C)"
proof -
  from assms obtain ss where "successors C v = Return (s # ss)"
    by (auto simp: chain_succ_def split: outcome.splits list.splits)
  then have "map snd (filter (\<lambda>e. fst e = v) (dg_edges C)) = s # ss"
    by (auto simp: successors_def split: if_splits)
  then have "s \<in> set (map snd (filter (\<lambda>e. fst e = v) (dg_edges C)))"
    by (metis list.set_intros(1))
  then obtain e where "e \<in> set (dg_edges C)" "fst e = v" "snd e = s" by auto
  then show ?thesis by (cases e) auto
qed

lemma chain_path_in_nodes:
  assumes "edges_in st (Some C)"
  shows "chain_path st C v p \<Longrightarrow> p = [v] \<or> set p \<subseteq> set (nodes (graph st))"
proof (induction rule: chain_path.induct)
  case (chain_end v)
  show ?case by simp
next
  case (chain_step v s p)
  from chain_succ_edge [OF chain_step.hyps(2)] assms
  have vs: "v \<in> set (nodes (graph st))" "s \<in> set (nodes (graph st))"
    by (auto simp: edges_in_def list_all_iff)
  from chain_step.IH vs show ?case by auto
qed

lemma chain_path_length:
  assumes "edges_in st (Some C)" "chain_path st C v p"
  shows "length p \<le> Suc (length (nodes (graph st)))"
proof -
  from chain_path_in_nodes [OF assms] show ?thesis
  proof
    assume "p = [v]"
    then show ?thesis by simp
  next
    assume sub: "set p \<subseteq> set (nodes (graph st))"
    have "length p = card (set p)"
      using chain_path_distinct [OF assms(2)] by (simp add: distinct_card)
    also have "\<dots> \<le> card (set (nodes (graph st)))"
      using sub by (intro card_mono) auto
    also have "\<dots> \<le> length (nodes (graph st))" by (rule card_length)
    finally show ?thesis by simp
  qed
qed

lemma chain_path_steps:
  "chain_path st C v p \<Longrightarrow> \<forall>u\<in>set (butlast p). agrees C f u \<Longrightarrow> length p \<le> Suc k
   \<Longrightarrow> steps_to_output st f k v \<noteq> None"
proof (induction arbitrary: k rule: chain_path.induct)
  case (chain_end v)
  then show ?case by (cases k) auto
next
  case (chain_step v s p)
  from chain_step.hyps(3) have ne: "p \<noteq> []" by (rule chain_path_nonempty)
  with chain_step.prems obtain k' where k: "k = Suc k'" "length p \<le> Suc k'"
    by (cases k) auto
  from ne chain_step.prems(1) have "agrees C f v" and rest: "\<forall>u\<in>set (butlast p). agrees C f u"
    by auto
  with chain_step.hyps(2) have "map_of f v = Some s" by (simp add: agrees_def)
  with chain_step.IH [OF rest k(2)] chain_step.hyps(1) show ?case
    by (simp add: k)
qed

lemma walk_keeps_refl: "walk_keeps C f f"
  by (simp add: walk_keeps_def)

lemma walk_keeps_trans: "walk_keeps C f g \<Longrightarrow> walk_keeps C g h \<Longrightarrow> walk_keeps C f h"
  by (simp add: walk_keeps_def)

lemma walk_keeps_dict_set:
  assumes "chain_succ C v = Some s"
  shows "walk_keeps C f (dict_set f v s)" "agrees C (dict_set f v s) v"
  using assms by (auto simp: walk_keeps_def agrees_def map_of_dict_set)

lemma chain_walk_path:
  "chain_walk n st C i v l (f, P, L) = Return (f', P', L')
   \<Longrightarrow> \<exists>p. chain_path st C v p \<and> walk_keeps C f f' \<and> (\<forall>u\<in>set (butlast p). agrees C f' u)"
proof (induction n arbitrary: v l f P L)
  case 0
  then show ?case by simp
next
  case (Suc n)
  show ?case
  proof (cases "v \<in> set (output_nodes st)")
    case True
    with Suc.prems have "f' = f" by (auto elim!: obind_ReturnE)
    with True show ?thesis
      by (auto intro!: exI [of _ "[v]"] chain_path.chain_end simp: walk_keeps_refl)
  next
    case False
    with Suc.prems obtain ss s P1 L1 v' where
      ss: "successors C v = Return ss" and s: "next_iter ss = Return s"
      and d: "dict_get (dict_set f v s) v = Return v'"
      and rec: "chain_walk n st C i v' (l + 1) (dict_set f v s, P1, L1) = Return (f', P', L')"
      by (auto elim!: obind_ReturnE)
    from d have v': "v' = s" by (simp add: dict_get_def map_of_dict_set)
    from ss s have cs: "chain_succ C v = Some s"
      by (auto simp: chain_succ_def next_iter_def split: list.splits)
    from Suc.IH [OF rec] obtain p where p: "chain_path st C v' p"
      "walk_keeps C (dict_set f v s) f'" "\<forall>u\<in>set (butlast p). agrees C f' u" by blast
    from p(1) have ne: "p \<noteq> []" by (rule chain_path_nonempty)
    have path: "chain_path st C v (v # p)"
      using False cs p(1) v' by (auto intro: chain_path.chain_step)
    have keep: "walk_keeps C f f'"
      using walk_keeps_dict_set(1) [OF cs] p(2) by (rule walk_keeps_trans)
    have "agrees C f' v"
      using walk_keeps_dict_set(2) [OF cs, of f] p(2) by (simp add: walk_keeps_def)
    with p(3) ne have "\<forall>u\<in>set (butlast (v # p)). agrees C f' u" by simp
    with path keep show ?thesis by blast
  qed
qed

lemma chain_loop_paths:
  "chain_loop n st C (f, P, L) is = Return (f', P', L')
   \<Longrightarrow> walk_keeps C f f'
       \<and> (\<forall>i\<in>set is. \<exists>p. chain_path st C i p \<and> (\<forall>u\<in>set (butlast p). agrees C f' u))"
proof (induction "is" arbitrary: f P L)
  case Nil
  then show ?case by (simp add: walk_keeps_refl)
next
  case (Cons i "is")
  from Cons.prems obtain f1 P1 L1 where
    w: "chain_walk n st C i i 0 (f, P, L) = Return (f1, P1, L1)"
    and l: "chain_loop n st C (f1, P1, L1) is = Return (f', P', L')"
    by (auto elim!: obind_ReturnE)
  from chain_walk_path [OF w] obtain p where p: "chain_path st C i p"
    "walk_keeps C f f1" "\<forall>u\<in>set (butlast p). agrees C f1 u" by blast
  from Cons.IH [OF l] have k: "walk_keeps C f1 f'"
    and rest: "\<forall>i\<in>set is. \<exists>p. chain_path st C i p \<and> (\<forall>u\<in>set (butlast p). agrees C f' u)"
    by blast+
  from p(3) k have "\<forall>u\<in>set (butlast p). agrees C f' u" by (simp add: walk_keeps_def)
  with p(1) rest have "\<forall>i\<in>set (i # is). \<exists>p. chain_path st C i p \<and> (\<forall>u\<in>set (butlast p). agrees C f' u)"
    by auto
  moreover from p(2) k have "walk_keeps C f f'" by (rule walk_keeps_trans)
  ultimately show ?case by blast
qed

subsection \<open>The order in which the keys of the dictionary are inserted\<close>

lemma omap_obind: "omap h (obind m k) = obind m (\<lambda>x. omap h (k x))"
  by (cases m) simp_all

lemma obind_cong_ret: "(\<And>x. m = Return x \<Longrightarrow> k x = k' x) \<Longrightarrow> obind m k = obind m k'"
  by (cases m) simp_all

lemma omap_eq_cases:
  assumes "omap h a = omap h b"
  obtains x y where "a = Return x" "b = Return y" "h x = h y"
  | e where "a = Raise e" "b = Raise e"
  | "a = OutOfFuel" "b = OutOfFuel"
  using assms by (cases a; cases b) auto

lemma dict_get_keys: "map_of f = map_of g \<Longrightarrow> dict_get f v = dict_get g v"
  by (simp add: dict_get_def)

lemma dict_set_keys: "map_of f = map_of g \<Longrightarrow> map_of (dict_set f v s) = map_of (dict_set g v s)"
  by (rule ext) (simp add: map_of_dict_set)

lemma dict_get_dict_set: "dict_get (dict_set f v s) v = Return s"
  by (simp add: dict_get_def map_of_dict_set)

lemma map_of_const: "map_of (map (\<lambda>v. (v, c)) ks) x = (if x \<in> set ks then Some c else None)"
  by (induction ks) auto

lemma chain_walk_keys:
  "map_of f = map_of g
   \<Longrightarrow> omap chains_view (chain_walk n st C i v l (f, P, L)) = omap chains_view (chain_walk n st C i v l (g, P, L))"
proof (induction n arbitrary: v l f g P L)
  case 0
  show ?case by simp
next
  case (Suc n)
  have rec: "omap chains_view (chain_walk n st C i s (Suc l) (dict_set f v s, P', L'))
      = omap chains_view (chain_walk n st C i s (Suc l) (dict_set g v s, P', L'))" for s P' L'
    by (rule Suc.IH) (rule dict_set_keys [OF Suc.prems])
  show ?case
  proof (cases "v \<in> set (output_nodes st)")
    case True
    then show ?thesis using Suc.prems by (simp add: omap_obind chains_view_def)
  next
    case False
    then show ?thesis by (simp add: omap_obind dict_get_dict_set rec)
  qed
qed

lemma chain_loop_keys:
  "map_of f = map_of g
   \<Longrightarrow> omap chains_view (chain_loop n st C (f, P, L) is) = omap chains_view (chain_loop n st C (g, P, L) is)"
proof (induction "is" arbitrary: f g P L)
  case Nil
  then show ?case by (simp add: chains_view_def)
next
  case (Cons i "is")
  from chain_walk_keys [OF Cons.prems, of n st C i i 0 P L] show ?case
  proof (cases rule: omap_eq_cases)
    case (1 x y)
    obtain f1 P1 L1 where x: "x = (f1, P1, L1)" by (cases x)
    obtain g1 P2 L2 where y: "y = (g1, P2, L2)" by (cases y)
    from 1(3) x y have e: "map_of f1 = map_of g1" "P2 = P1" "L2 = L1"
      by (simp_all add: chains_view_def)
    from Cons.IH [OF e(1), of P1 L1] 1(1,2) x y e show ?thesis by simp
  next
    case (2 e)
    then show ?thesis by simp
  next
    case 3
    then show ?thesis by simp
  qed
qed

lemma get_chain_decomposition_keys:
  assumes "set ks = set ks'"
  shows "omap chains_view (get_chain_decomposition n st C ks)
       = omap chains_view (get_chain_decomposition n st C ks')"
  unfolding get_chain_decomposition_def
  by (rule chain_loop_keys) (rule ext, simp add: map_of_const assms)

lemma traverse_neighbors_keys:
  assumes "map_of f = map_of g"
    and "\<And>sups status v. traverse_infl_walk n st f sups status v = traverse_infl_walk n st g sups status v"
  shows "traverse_neighbors n st f sups status v ws = traverse_neighbors n st g sups status v ws"
proof (induction ws arbitrary: sups status)
  case Nil
  show ?case by simp
next
  case (Cons w ws)
  show ?case
    by (simp add: dict_get_keys [OF assms(1)] assms(2) Cons.IH cong: if_cong)
qed

lemma traverse_infl_walk_keys:
  assumes "map_of f = map_of g"
  shows "traverse_infl_walk n st f sups status v = traverse_infl_walk n st g sups status v"
proof (induction n arbitrary: sups status v)
  case 0
  show ?case by simp
next
  case (Suc n)
  have "traverse_neighbors n st f sups status v = traverse_neighbors n st g sups status v"
    for sups status v
    by (rule ext, rule traverse_neighbors_keys [OF assms]) (rule Suc.IH)
  then show ?case by simp
qed

lemma suprema_loop_keys:
  assumes "map_of f = map_of g"
  shows "suprema_loop n st f sups status vs = suprema_loop n st g sups status vs"
  by (induction vs arbitrary: sups status)
     (simp_all add: traverse_infl_walk_keys [OF assms] cong: if_cong)

lemma compute_suprema_keys:
  assumes "map_of f = map_of g"
  shows "compute_suprema n st f P L vs = compute_suprema n st g P L vs"
  by (simp add: compute_suprema_def suprema_loop_keys [OF assms])

lemma flow_from_array_keys:
  assumes "map_of f = map_of g"
  shows "flow_from_array st f v = flow_from_array st g v"
  by (simp add: flow_from_array_def dict_get_keys [OF assms])

lemma flowgraph_loop_keys:
  assumes "map_of f = map_of g"
  shows "flowgraph_loop st f H vs = flowgraph_loop st g H vs"
  by (induction vs arbitrary: H) (simp_all add: flow_from_array_keys [OF assms])

lemma check_loop_keys:
  assumes "map_of f = map_of g"
  shows "check_loop st f top_order conds is = check_loop st g top_order conds is"
  by (induction "is" arbitrary: conds) (simp_all add: flow_from_array_keys [OF assms])

lemma find_flow_tail_keys:
  assumes "omap chains_view a = omap chains_view b"
  shows "omap flow_view (obind a (\<lambda>(f, P, L).
           obind (compute_suprema fuel st f P L vs) (\<lambda>sigma.
           case sigma of
             None \<Rightarrow> Return None
           | Some _ \<Rightarrow>
               obind (get_flowgraph st f) (\<lambda>g.
               obind (topological_sort fuel g) (\<lambda>top_order.
               if sc then
                 obind (check_if_flow st f top_order) (\<lambda>ok.
                   if \<not> ok then Raise RuntimeError else Return (Some (f, top_order)))
               else Return (Some (f, top_order)))))))
       = omap flow_view (obind b (\<lambda>(f, P, L).
           obind (compute_suprema fuel st f P L vs) (\<lambda>sigma.
           case sigma of
             None \<Rightarrow> Return None
           | Some _ \<Rightarrow>
               obind (get_flowgraph st f) (\<lambda>g.
               obind (topological_sort fuel g) (\<lambda>top_order.
               if sc then
                 obind (check_if_flow st f top_order) (\<lambda>ok.
                   if \<not> ok then Raise RuntimeError else Return (Some (f, top_order)))
               else Return (Some (f, top_order)))))))"
  using assms
proof (cases rule: omap_eq_cases)
  case (1 x y)
  obtain f1 P1 L1 where x: "x = (f1, P1, L1)" by (cases x)
  obtain g1 P2 L2 where y: "y = (g1, P2, L2)" by (cases y)
  from 1(3) x y have e: "map_of f1 = map_of g1" "P2 = P1" "L2 = L1"
    by (simp_all add: chains_view_def)
  show ?thesis
    unfolding 1(1,2) x y e(2,3)
    by (simp add: omap_obind compute_suprema_keys [OF e(1)] get_flowgraph_def check_if_flow_def
          flowgraph_loop_keys [OF e(1)] check_loop_keys [OF e(1)] flow_view_def e(1)
          option.case_distrib [of "omap flow_view"] if_distrib [of "omap flow_view"]
        cong: option.case_cong if_cong)
next
  case (2 e)
  then show ?thesis by simp
next
  case 3
  then show ?thesis by simp
qed

lemma find_flow_keys:
  assumes "set ks = set ks'"
  shows "omap flow_view (find_flow fuel st sc ks vs) = omap flow_view (find_flow fuel st sc ks' vs)"
proof (cases "length (input_nodes st) \<noteq> length (output_nodes st)")
  case True
  then show ?thesis by (simp add: find_flow_def)
next
  case False
  show ?thesis
  proof (cases "build_path_cover fuel st")
    case (Return t)
    show ?thesis
    proof (cases t)
      case (Fam C)
      show ?thesis
      proof (cases "truthy t")
        case True
        with False Return Fam show ?thesis
          using find_flow_tail_keys [OF get_chain_decomposition_keys [OF assms, of fuel st C], of fuel st vs sc]
          by (simp add: find_flow_def)
      next
        case False
        with \<open>\<not> length (input_nodes st) \<noteq> length (output_nodes st)\<close> Return show ?thesis
          by (simp add: find_flow_def)
      qed
    next
      case Zero
      with False Return show ?thesis by (simp add: find_flow_def)
    qed
  next
    case (Raise e)
    with False show ?thesis by (simp add: find_flow_def)
  next
    case OutOfFuel
    with False show ?thesis by (simp add: find_flow_def)
  qed
qed

lemma flow_view_SomeD:
  assumes "omap flow_view a = Return (Some (m, top_order))"
  obtains f where "a = Return (Some (f, top_order))" "map_of f = m"
proof (cases a)
  case (Return r)
  with assms obtain f where "r = Some (f, top_order)" "map_of f = m"
    by (cases r) (auto simp: flow_view_def)
  with Return that show ?thesis by blast
qed (use assms in simp_all)

subsection \<open>The order of the loop over the non-output vertices\<close>

lemma np_set_length: "np_set xs i x = Return ys \<Longrightarrow> length ys = length xs"
  by (auto simp: np_set_def elim!: obind_ReturnE)

lemma chain_walk_lengths:
  "chain_walk n st C i v l (f, P, L) = Return (f', P', L') \<Longrightarrow> length P' = length P \<and> length L' = length L"
proof (induction n arbitrary: v l f P L)
  case 0
  then show ?case by simp
next
  case (Suc n)
  show ?case
  proof (cases "v \<in> set (output_nodes st)")
    case True
    with Suc.prems show ?thesis by (auto elim!: obind_ReturnE dest: np_set_length)
  next
    case False
    with Suc.prems obtain s P1 L1 where
      p: "np_set P v i = Return P1" and l: "np_set L v l = Return L1"
      and r: "chain_walk n st C i s (l + 1) (dict_set f v s, P1, L1) = Return (f', P', L')"
      by (auto simp: dict_get_dict_set elim!: obind_ReturnE)
    from Suc.IH [OF r] np_set_length [OF p] np_set_length [OF l] show ?thesis by simp
  qed
qed

lemma chain_loop_lengths:
  "chain_loop n st C (f, P, L) is = Return (f', P', L') \<Longrightarrow> length P' = length P \<and> length L' = length L"
proof (induction "is" arbitrary: f P L)
  case Nil
  then show ?case by simp
next
  case (Cons i "is")
  from Cons.prems obtain f1 P1 L1 where
    w: "chain_walk n st C i i 0 (f, P, L) = Return (f1, P1, L1)"
    and l: "chain_loop n st C (f1, P1, L1) is = Return (f', P', L')"
    by (auto elim!: obind_ReturnE)
  from Cons.IH [OF l] chain_walk_lengths [OF w] show ?case by simp
qed

lemma chain_decomposition_pre:
  assumes "get_chain_decomposition n st C ks = Return (f, P, L)"
    and "wf_labels st" "set (non_output_nodes st) \<subseteq> set ks"
  shows "sup_pre st f \<and> length P = length (nodes (graph st)) \<and> length L = length (nodes (graph st))"
proof -
  from assms(1) [unfolded get_chain_decomposition_def] chain_loop_paths
  have keep: "walk_keeps C (map (\<lambda>v. (v, 0)) ks) f" by blast
  have "map_of f v \<noteq> None" if "v \<in> set (non_output_nodes st)" for v
  proof -
    from that assms(3) have "map_of (map (\<lambda>v. (v, 0 :: int)) ks) v \<noteq> None"
      by (auto simp: map_of_const)
    with keep show ?thesis by (simp add: walk_keeps_def)
  qed
  with assms(2) have "sup_pre st f" by (simp add: sup_pre_def)
  with chain_loop_lengths [OF assms(1) [unfolded get_chain_decomposition_def]]
  show ?thesis by simp
qed

lemma distinct_nodes: "distinct (nodes g)"
  by (simp add: nodes_def distinct_uniq)

lemma wf_nodes_all:
  assumes "wf_labels st" "k < length (nodes (graph st))"
  shows "int k \<in> set (nodes (graph st))"
proof -
  let ?n = "length (nodes (graph st))"
  have sub: "set (nodes (graph st)) \<subseteq> int ` {..<?n}"
  proof
    fix u assume "u \<in> set (nodes (graph st))"
    with assms(1) have "0 \<le> u" "u < int ?n" by (auto dest: wf_labelsD)
    then have "u = int (nat u)" "nat u < ?n" by auto
    then show "u \<in> int ` {..<?n}" by blast
  qed
  have "card (set (nodes (graph st))) = ?n"
    by (simp add: distinct_card distinct_nodes)
  moreover have "card (int ` {..<?n}) = ?n"
    by (simp add: card_image)
  ultimately have "set (nodes (graph st)) = int ` {..<?n}"
    using sub by (intro card_subset_eq) auto
  with assms(2) show ?thesis by auto
qed

lemma zeros_non_outputs:
  assumes "wf_labels st" "walk_pre st f sups status"
  shows "zeros status \<le> length (non_output_nodes st)"
proof -
  let ?n = "length (nodes (graph st))"
  from assms(2) have len: "length status = ?n" by (simp add: walk_pre_def)
  have "int ` {k. k < length status \<and> status ! k = 0} \<subseteq> set (non_output_nodes st)"
  proof
    fix u assume "u \<in> int ` {k. k < length status \<and> status ! k = 0}"
    then obtain k where k: "u = int k" "k < length status" "status ! k = 0" by auto
    with len wf_nodes_all [OF assms(1)] have n: "u \<in> set (nodes (graph st))" by simp
    from k have "stat status u = 0" by (simp add: stat_def)
    with assms(2) n have "u \<notin> set (output_nodes st)" by (auto simp: walk_pre_def)
    with n show "u \<in> set (non_output_nodes st)" by (simp add: non_output_nodes_def)
  qed
  then have "card (int ` {k. k < length status \<and> status ! k = 0}) \<le> card (set (non_output_nodes st))"
    by (intro card_mono) auto
  moreover have "card (int ` {k. k < length status \<and> status ! k = 0}) = zeros status"
    by (simp add: zeros_def card_image)
  ultimately show ?thesis using card_length [of "non_output_nodes st"] by linarith
qed

lemma compute_suprema_char:
  assumes "sup_pre st f"
    and "length P = length (nodes (graph st))" "length L = length (nodes (graph st))"
    and "set vs \<subseteq> set (non_output_nodes st)" "length (non_output_nodes st) < fuel"
  shows "if \<forall>u\<in>set vs. settles st f u
         then \<exists>sups. compute_suprema fuel st f P L vs = Return (Some sups)
         else compute_suprema fuel st f P L vs = Return None"
proof -
  from assms(1) have wf: "wf_labels st" by (simp add: sup_pre_def)
  from init_status_ok [OF wf assms(2,3), of f] obtain sups status where
    i: "init_status st P L = Return (sups, status)" "walk_pre st f sups status"
       "\<forall>k<length status. status ! k \<noteq> 1" by blast
  from zeros_non_outputs [OF wf i(2)] assms(5) have z: "zeros status < fuel" by simp
  from suprema_loop_char [OF assms(1) i(2,3) z assms(4)] i(1)
  show ?thesis by (simp add: compute_suprema_def)
qed

lemma set_order_non_outputs: "set_order st vs \<Longrightarrow> set vs = set (non_output_nodes st)"
  by (auto simp: set_order_def non_output_nodes_def)

lemma compute_suprema_order:
  assumes "sup_pre st f"
    and "length P = length (nodes (graph st))" "length L = length (nodes (graph st))"
    and "set vs = set (non_output_nodes st)" "set vs' = set (non_output_nodes st)"
    and "length (non_output_nodes st) < fuel"
  shows "(compute_suprema fuel st f P L vs = Return None \<and> compute_suprema fuel st f P L vs' = Return None)
       \<or> (\<exists>s s'. compute_suprema fuel st f P L vs = Return (Some s)
                 \<and> compute_suprema fuel st f P L vs' = Return (Some s'))"
proof -
  have a: "set vs \<subseteq> set (non_output_nodes st)" and b: "set vs' \<subseteq> set (non_output_nodes st)"
    using assms(4,5) by simp_all
  from compute_suprema_char [OF assms(1,2,3) a assms(6)]
       compute_suprema_char [OF assms(1,2,3) b assms(6)] assms(4,5)
  show ?thesis by (cases "\<forall>u\<in>set (non_output_nodes st). settles st f u") auto
qed

lemma find_flow_order:
  assumes "wf_labels st" "set_order st ks" "set_order st vs" "set_order st vs'"
    and "length (non_output_nodes st) < fuel"
  shows "find_flow fuel st sc ks vs = find_flow fuel st sc ks vs'"
proof -
  have tail: "obind (compute_suprema fuel st f P L vs) k = obind (compute_suprema fuel st f P L vs') k"
    if "get_chain_decomposition fuel st C ks = Return (f, P, L)" "\<And>s s'. k (Some s) = k (Some s')"
    for C f P L and k :: "nat list list option \<Rightarrow> (int dict \<times> int list) option outcome"
  proof -
    from chain_decomposition_pre [OF that(1) assms(1)] set_order_non_outputs [OF assms(2)]
    have pre: "sup_pre st f" "length P = length (nodes (graph st))" "length L = length (nodes (graph st))"
      by simp_all
    from compute_suprema_order [OF pre set_order_non_outputs [OF assms(3)]
        set_order_non_outputs [OF assms(4)] assms(5)]
    show ?thesis using that(2) by auto
  qed
  show ?thesis
    unfolding find_flow_def
    by (auto intro!: obind_cong_ret tail split: tau.splits)
qed

lemma find_flow_Some_order:
  assumes "find_flow fuel st sc ks vs = Return (Some r)" "find_flow fuel st sc ks vs' = Return (Some r')"
  shows "r = r'"
proof -
  from assms(1) obtain C f P L g where
    a: "build_path_cover fuel st = Return (Fam C)"
       "get_chain_decomposition fuel st C ks = Return (f, P, L)"
       "get_flowgraph st f = Return g"
    and ra: "\<exists>top_order. topological_sort fuel g = Return top_order \<and> r = (f, top_order)"
    unfolding find_flow_def
    by (auto elim!: obind_ReturnE split: if_splits tau.splits option.splits prod.splits)
  from assms(2) obtain C' f' P' L' g' where
    b: "build_path_cover fuel st = Return (Fam C')"
       "get_chain_decomposition fuel st C' ks = Return (f', P', L')"
       "get_flowgraph st f' = Return g'"
    and rb: "\<exists>top_order. topological_sort fuel g' = Return top_order \<and> r' = (f', top_order)"
    unfolding find_flow_def
    by (auto elim!: obind_ReturnE split: if_splits tau.splits option.splits prod.splits)
  from a b have "C' = C" by simp
  with a b have "f' = f" by simp
  with a b have "g' = g" by simp
  with ra rb \<open>f' = f\<close> show ?thesis by auto
qed

text \<open>
  With a label that shares its cell, the order of the loop of line 96 shows in the outcome: in
  \<^verbatim>\<open>alias_state\<close> the order \<open>0, 1, 2, 3, -2\<close> ends with \<^verbatim>\<open>None\<close>, the order \<open>0, 2, 1, 3, -2\<close>
  with a \<open>KeyError\<close>, the traversal having entered the output \<open>5\<close>.
\<close>

lemma alias_state_loop_order:
  "find_flow 10 alias_state False [0, 1, 2, 3, - 2] [0, 1, 2, 3, - 2] = Return None
   \<and> find_flow 10 alias_state False [0, 1, 2, 3, - 2] [0, 2, 1, 3, - 2] = Raise KeyError"
  by code_simp

section \<open>Properties\<close>

text \<open>
  C1. On the path graph \<open>0 - 1 - 2 - 3 - 4\<close> with input \<open>0\<close> and output \<open>4\<close>, \<^verbatim>\<open>find_flow\<close>
  returns a flow with \<open>flow v = v + 1\<close> for \<open>v = 0, 1, 2, 3\<close> and the topological order
  \<open>[0, 1, 2, 3, 4]\<close>, with and without the sanity check, as soon as it may nest five calls,
  and in whatever orders \<open>ks\<close> and \<open>vs\<close> the two sets of non-output vertices are iterated.
  When the keys are inserted in the order \<open>0, 1, 2, 3\<close> the dictionary is
  \<open>{0: 1, 1: 2, 2: 3, 3: 4}\<close> in this order.
\<close>

theorem path5_flow:
  assumes "set_order path5 ks" and "set_order path5 vs"
  shows "find_flow (5 + k) path5 sanity_check [0, 1, 2, 3] vs
           = Return (Some ([(0, 1), (1, 2), (2, 3), (3, 4)], [0, 1, 2, 3, 4]))
       \<and> flow_from_array path5 [(0, 1), (1, 2), (2, 3), (3, 4)] 0 = Return 1
       \<and> flow_from_array path5 [(0, 1), (1, 2), (2, 3), (3, 4)] 1 = Return 2
       \<and> flow_from_array path5 [(0, 1), (1, 2), (2, 3), (3, 4)] 2 = Return 3
       \<and> flow_from_array path5 [(0, 1), (1, 2), (2, 3), (3, 4)] 3 = Return 4
       \<and> (\<exists>f. find_flow (5 + k) path5 sanity_check ks vs = Return (Some (f, [0, 1, 2, 3, 4]))
              \<and> flow_from_array path5 f 0 = Return 1
              \<and> flow_from_array path5 f 1 = Return 2
              \<and> flow_from_array path5 f 2 = Return 3
              \<and> flow_from_array path5 f 3 = Return 4)"
proof -
  let ?f = "[(0, 1), (1, 2), (2, 3), (3, 4)] :: int dict"
  let ?r = "Return (Some (?f, [0, 1, 2, 3, 4 :: int]))"
  have "find_flow 5 path5 True [0, 1, 2, 3] [0, 1, 2, 3] = ?r"
    by code_simp
  moreover have "find_flow 5 path5 False [0, 1, 2, 3] [0, 1, 2, 3] = ?r"
    by code_simp
  ultimately have "find_flow 5 path5 sanity_check [0, 1, 2, 3] [0, 1, 2, 3] = ?r"
    by (cases sanity_check) simp_all
  with find_flow_mono [of 5 "5 + k" path5 sanity_check "[0, 1, 2, 3]" "[0, 1, 2, 3]"]
  have base: "find_flow (5 + k) path5 sanity_check [0, 1, 2, 3] [0, 1, 2, 3] = ?r"
    by (simp add: fuel_le_def)
  have wf: "wf_labels path5" by code_simp
  have o: "set_order path5 [0, 1, 2, 3]" by code_simp
  have n: "length (non_output_nodes path5) < 5 + k"
  proof -
    have "length (non_output_nodes path5) = 4" by code_simp
    then show ?thesis by simp
  qed
  from find_flow_order [OF wf o assms(2) o n, of sanity_check] base
  have graph_keys: "find_flow (5 + k) path5 sanity_check [0, 1, 2, 3] vs = ?r" by simp
  have vals: "flow_from_array path5 ?f 0 = Return 1" "flow_from_array path5 ?f 1 = Return 2"
    "flow_from_array path5 ?f 2 = Return 3" "flow_from_array path5 ?f 3 = Return 4"
    by code_simp+
  from assms(1) o have "set ks = set [0, 1, 2, 3 :: int]" by (simp add: set_order_def)
  from find_flow_keys [OF this, of "5 + k" path5 sanity_check vs] graph_keys
  have "omap flow_view (find_flow (5 + k) path5 sanity_check ks vs)
      = Return (Some (map_of ?f, [0, 1, 2, 3, 4]))"
    by (simp add: flow_view_def)
  then obtain f where f: "find_flow (5 + k) path5 sanity_check ks vs = Return (Some (f, [0, 1, 2, 3, 4]))"
    "map_of f = map_of ?f"
    by (rule flow_view_SomeD)
  from vals have "flow_from_array path5 f 0 = Return 1" "flow_from_array path5 f 1 = Return 2"
    "flow_from_array path5 f 2 = Return 3" "flow_from_array path5 f 3 = Return 4"
    by (simp_all add: flow_from_array_keys [OF f(2)])
  with f(1) graph_keys vals show ?thesis by blast
qed

theorem path5_flow_witness:
  "set_order path5 [3, 1, 0, 2] \<and> set_order path5 [2, 0, 3, 1]
   \<and> find_flow 5 path5 True [0, 1, 2, 3] [2, 0, 3, 1]
       = Return (Some ([(0, 1), (1, 2), (2, 3), (3, 4)], [0, 1, 2, 3, 4]))
   \<and> (\<exists>f. find_flow 5 path5 True [3, 1, 0, 2] [2, 0, 3, 1] = Return (Some (f, [0, 1, 2, 3, 4]))
          \<and> flow_from_array path5 f 0 = Return 1
          \<and> flow_from_array path5 f 1 = Return 2
          \<and> flow_from_array path5 f 2 = Return 3
          \<and> flow_from_array path5 f 3 = Return 4)"
proof -
  have h1: "set_order path5 [3, 1, 0, 2]" by code_simp
  have h2: "set_order path5 [2, 0, 3, 1]" by code_simp
  from path5_flow [OF h1 h2, of 0 True] h1 h2 show ?thesis by simp
qed

text \<open>
  C3. In \<^verbatim>\<open>reroot_state\<close> the first search leaves the family \<open>0 \<rightarrow> 2 \<rightarrow> 3 \<rightarrow> 4\<close>. The second,
  from the input \<open>1\<close>, reaches vertex \<open>2\<close>, which owns the incoming chain edge \<open>0 \<rightarrow> 2\<close> and
  whose predecessor \<open>0\<close> is unvisited in this attempt. Re-rooting \<open>0\<close> succeeds, and the call at
  \<open>2\<close> reports success, but the family it returns is \<^verbatim>\<open>None\<close>: the caller's next use of it
  raises \<open>AttributeError\<close>, and so do \<^verbatim>\<open>_build_path_cover\<close> and \<^verbatim>\<open>find_flow\<close>, before either
  set of non-output vertices is iterated.
\<close>

theorem reroot_returns_None:
  "augmented_search 10 reroot_state (Some DiGraph) 1 (np_zeros 6) 0
     = Return (Some \<lparr>dg_nodes = [3, 4, 2, 0], dg_edges = [(3, 4), (2, 3), (0, 2)]\<rparr>, [1, 0, 1, 1, 1, 0], 1)
   \<and> augmented_search 10 reroot_state
        (Some \<lparr>dg_nodes = [3, 4, 2, 0], dg_edges = [(3, 4), (2, 3), (0, 2)]\<rparr>) 2 [1, 2, 1, 1, 1, 0] 2
     = Return (None, [2, 2, 2, 1, 1, 2], 1)
   \<and> build_path_cover (10 + k) reroot_state = Raise AttributeError
   \<and> find_flow (10 + k) reroot_state sanity_check ks vs = Raise AttributeError"
proof -
  have "augmented_search 10 reroot_state (Some DiGraph) 1 (np_zeros 6) 0
     = Return (Some \<lparr>dg_nodes = [3, 4, 2, 0], dg_edges = [(3, 4), (2, 3), (0, 2)]\<rparr>, [1, 0, 1, 1, 1, 0], 1)"
    by code_simp
  moreover have "augmented_search 10 reroot_state
        (Some \<lparr>dg_nodes = [3, 4, 2, 0], dg_edges = [(3, 4), (2, 3), (0, 2)]\<rparr>) 2 [1, 2, 1, 1, 1, 0] 2
     = Return (None, [2, 2, 2, 1, 1, 2], 1)"
    by code_simp
  moreover have "build_path_cover 10 reroot_state = Raise AttributeError"
    by code_simp
  with build_path_cover_mono [of 10 "10 + k" reroot_state]
  have cover: "build_path_cover (10 + k) reroot_state = Raise AttributeError"
    by (simp add: fuel_le_def)
  moreover have "length (input_nodes reroot_state) = length (output_nodes reroot_state)"
    by (simp add: reroot_state_def)
  with cover have "find_flow (10 + k) reroot_state sanity_check ks vs = Raise AttributeError"
    by (simp add: find_flow_def)
  ultimately show ?thesis by simp
qed

text \<open>
  C5. On the complete bipartite state \<^verbatim>\<open>k22\<close>, \<^verbatim>\<open>find_flow\<close> with the sanity check returns
  the flow \<open>0 \<mapsto> 3\<close>, \<open>1 \<mapsto> 2\<close> with the order \<open>[0, 1, 3, 2]\<close>, in each of the orders in which
  the sets \<open>{0, 1}\<close> of lines 77 and 96 can be iterated, and \<^verbatim>\<open>_check_if_flow\<close> accepts the
  pair. Condition (c) fails for it: \<open>0\<close> is a neighbour of \<open>flow 1 = 2\<close> other than \<open>1\<close>, and
  \<open>1\<close> does not come before \<open>0\<close>. The check misses \<open>0\<close> because it precedes \<open>1\<close> in the
  neighbours of \<open>2\<close>.
\<close>

theorem check_if_flow_accepts_violation:
  "find_flow 10 k22 True [0, 1] [0, 1] = Return (Some ([(0, 3), (1, 2)], [0, 1, 3, 2]))
   \<and> find_flow 10 k22 True [0, 1] [1, 0] = Return (Some ([(0, 3), (1, 2)], [0, 1, 3, 2]))
   \<and> find_flow 10 k22 True [1, 0] [0, 1] = Return (Some ([(1, 2), (0, 3)], [0, 1, 3, 2]))
   \<and> find_flow 10 k22 True [1, 0] [1, 0] = Return (Some ([(1, 2), (0, 3)], [0, 1, 3, 2]))
   \<and> check_if_flow k22 [(0, 3), (1, 2)] [0, 1, 3, 2] = Return True
   \<and> check_if_flow k22 [(1, 2), (0, 3)] [0, 1, 3, 2] = Return True
   \<and> flow_from_array k22 [(0, 3), (1, 2)] 0 = Return 3
   \<and> flow_from_array k22 [(0, 3), (1, 2)] 1 = Return 2
   \<and> neighbors (graph k22) 2 = Return [0, 1]
   \<and> \<not> validate k22 (\<lambda>v. if v = 0 then 3 else 2) (order_of [0, 1, 3, 2])"
proof -
  have "find_flow 10 k22 True [0, 1] [0, 1] = Return (Some ([(0, 3), (1, 2)], [0, 1, 3, 2]))"
    by code_simp
  moreover have "find_flow 10 k22 True [0, 1] [1, 0] = Return (Some ([(0, 3), (1, 2)], [0, 1, 3, 2]))"
    by code_simp
  moreover have "find_flow 10 k22 True [1, 0] [0, 1] = Return (Some ([(1, 2), (0, 3)], [0, 1, 3, 2]))"
    by code_simp
  moreover have "find_flow 10 k22 True [1, 0] [1, 0] = Return (Some ([(1, 2), (0, 3)], [0, 1, 3, 2]))"
    by code_simp
  moreover have "check_if_flow k22 [(0, 3), (1, 2)] [0, 1, 3, 2] = Return True"
    "check_if_flow k22 [(1, 2), (0, 3)] [0, 1, 3, 2] = Return True"
    by code_simp+
  moreover have "flow_from_array k22 [(0, 3), (1, 2)] 0 = Return 3"
    "flow_from_array k22 [(0, 3), (1, 2)] 1 = Return 2"
    "neighbors (graph k22) 2 = Return [0, 1]"
    by code_simp+
  moreover have "\<not> validate k22 (\<lambda>v. if v = 0 then 3 else 2) (order_of [0, 1, 3, 2])"
    by code_simp
  ultimately show ?thesis by simp
qed

text \<open>
  C6. When the numbers of input and output nodes differ, \<^verbatim>\<open>find_flow\<close> raises \<open>ValueError\<close>
  whatever the graph is and however little it is allowed to run: not even one call of the
  augmenting search (which needs a unit of fuel) takes place, and neither set of non-output
  vertices is looked at.
\<close>

theorem input_shape_error:
  assumes "length (input_nodes st) \<noteq> length (output_nodes st)"
  shows "find_flow fuel st sanity_check ks vs = Raise ValueError"
  using assms by (simp add: find_flow_def)

theorem input_shape_error_witness:
  "length (input_nodes lopsided_state) \<noteq> length (output_nodes lopsided_state)
   \<and> find_flow 0 lopsided_state False [0, 1] [0, 1] = Raise ValueError"
proof -
  have h: "length (input_nodes lopsided_state) \<noteq> length (output_nodes lopsided_state)"
    by (simp add: lopsided_state_def)
  show ?thesis using h input_shape_error [OF h, of 0 False "[0, 1]" "[0, 1]"] by simp
qed

text \<open>
  C10. For a state without vertices, inputs and outputs, \<^verbatim>\<open>_build_path_cover\<close> returns the
  empty family, which covers every vertex; \<^verbatim>\<open>find_flow\<close> takes the empty graph for a false
  value and raises \<open>UserWarning\<close>.
\<close>

theorem empty_state_no_flow:
  assumes "nodes (graph st) = []" and "input_nodes st = []" and "output_nodes st = []"
  shows "build_path_cover fuel st = Return (Fam DiGraph)
         \<and> find_flow fuel st sanity_check ks vs = Raise UserWarning"
proof -
  have "build_path_cover fuel st = Return (Fam DiGraph)"
    using assms by (simp add: build_path_cover_def attr_def)
  then show ?thesis
    using assms by (simp add: find_flow_def DiGraph_def)
qed

theorem empty_state_no_flow_witness:
  "nodes (graph empty_state) = [] \<and> input_nodes empty_state = [] \<and> output_nodes empty_state = []
   \<and> build_path_cover 3 empty_state = Return (Fam DiGraph)
   \<and> find_flow 3 empty_state False [] [] = Raise UserWarning"
proof -
  have h: "nodes (graph empty_state) = []" "input_nodes empty_state = []" "output_nodes empty_state = []"
    by (simp_all add: empty_state_def nodes_def)
  show ?thesis using h empty_state_no_flow [OF h, of 3 False "[]" "[]"] by simp
qed




text \<open>
  C2. The two ways of finding no flow end differently. When \<^verbatim>\<open>_build_path_cover\<close> fails,
  \<^verbatim>\<open>find_flow\<close> raises \<open>UserWarning\<close>, "Could not find a flow for the given state" (here on
  \<^verbatim>\<open>split_state\<close>, in every order of the two sets). When \<^verbatim>\<open>_compute_suprema\<close> returns
  \<^verbatim>\<open>None\<close>, the \<^verbatim>\<open>if\<close> of line 46 is skipped and, having no \<^verbatim>\<open>else\<close>, lets \<^verbatim>\<open>find_flow\<close> run
  off its end: it returns \<^verbatim>\<open>None\<close> where the no-flow outcome is due. This happens on
  \<^verbatim>\<open>alias_state\<close>, whose two sets CPython iterates in the order \<open>0, 1, 2, 3, -2\<close>.
\<close>

theorem suprema_None_falls_through:
  "length (input_nodes alias_state) = length (output_nodes alias_state)
   \<and> build_path_cover 10 alias_state
       = Return (Fam \<lparr>dg_nodes = [2, 5, 0, 3, 4, - 2, 1],
                       dg_edges = [(2, 5), (3, 4), (0, 3), (- 2, 2), (1, - 2)]\<rparr>)
   \<and> get_chain_decomposition 10 alias_state
         \<lparr>dg_nodes = [2, 5, 0, 3, 4, - 2, 1], dg_edges = [(2, 5), (3, 4), (0, 3), (- 2, 2), (1, - 2)]\<rparr>
         [0, 1, 2, 3, - 2]
       = Return ([(0, 3), (1, - 2), (2, 5), (3, 4), (- 2, 2)], [0, 1, 1, 0, 0, 1, 0], [0, 0, 2, 1, 2, 3, 0])
   \<and> compute_suprema 10 alias_state [(0, 3), (1, - 2), (2, 5), (3, 4), (- 2, 2)]
         [0, 1, 1, 0, 0, 1, 0] [0, 0, 2, 1, 2, 3, 0] [0, 1, 2, 3, - 2] = Return None
   \<and> find_flow (10 + k) alias_state sanity_check [0, 1, 2, 3, - 2] [0, 1, 2, 3, - 2] = Return None
   \<and> length (input_nodes split_state) = length (output_nodes split_state)
   \<and> build_path_cover (10 + k) split_state = Return Zero
   \<and> find_flow (10 + k) split_state sanity_check ks vs = Raise UserWarning"
proof -
  let ?C = "\<lparr>dg_nodes = [2, 5, 0, 3, 4, - 2, 1], dg_edges = [(2, 5), (3, 4), (0, 3), (- 2, 2), (1, - 2)]\<rparr>"
  let ?f = "[(0, 3), (1, - 2), (2, 5), (3, 4), (- 2, 2)] :: int dict"
  let ?P = "[0, 1, 1, 0, 0, 1, 0] :: int list"
  let ?L = "[0, 0, 2, 1, 2, 3, 0] :: nat list"
  let ?o = "[0, 1, 2, 3, - 2] :: int list"
  have a1: "length (input_nodes alias_state) = length (output_nodes alias_state)"
    by (simp add: alias_state_def)
  have a2: "build_path_cover 10 alias_state = Return (Fam ?C)" by code_simp
  have a3: "get_chain_decomposition 10 alias_state ?C ?o = Return (?f, ?P, ?L)" by code_simp
  have a4: "compute_suprema 10 alias_state ?f ?P ?L ?o = Return None" by code_simp
  have "find_flow 10 alias_state True ?o ?o = Return None"
    "find_flow 10 alias_state False ?o ?o = Return None"
    by code_simp+
  then have "find_flow 10 alias_state sanity_check ?o ?o = Return None"
    by (cases sanity_check) simp_all
  with find_flow_mono [of 10 "10 + k" alias_state sanity_check ?o ?o]
  have a5: "find_flow (10 + k) alias_state sanity_check ?o ?o = Return None"
    by (simp add: fuel_le_def)
  have s1: "length (input_nodes split_state) = length (output_nodes split_state)"
    by (simp add: split_state_def)
  have "build_path_cover 10 split_state = Return Zero" by code_simp
  with build_path_cover_mono [of 10 "10 + k" split_state]
  have s2: "build_path_cover (10 + k) split_state = Return Zero"
    by (simp add: fuel_le_def)
  with s1 have s3: "find_flow (10 + k) split_state sanity_check ks vs = Raise UserWarning"
    by (simp add: find_flow_def)
  from a1 a2 a3 a4 a5 s1 s2 s3 show ?thesis by simp
qed




text \<open>
  C8. Take two runs of \<^verbatim>\<open>find_flow\<close> on the same state, each with its own recursion budget,
  with or without the sanity check, and each iterating the two sets of non-output vertices
  (lines 77 and 96) in orders of its own. If both return a flow, the two successor
  dictionaries hold the same entries, so the flows agree on every vertex of the output
  complement, and the topological orders are the same list; they satisfy the same precedence
  constraints. When moreover every label lies in \<open>0 .. |V| - 1\<close> and the budget exceeds the
  number of non-output vertices, the whole outcome (a flow, \<^verbatim>\<open>None\<close> or an exception) is the
  same in both orders. Without the condition on the labels the outcome may depend on the
  order of line 96 (lemma \<open>alias_state_loop_order\<close>); within one interpreter the sets of one
  state are iterated in one order.
\<close>

theorem find_flow_deterministic:
  assumes "set_order st ks1" "set_order st ks2" "set_order st vs1" "set_order st vs2"
  shows "(find_flow fuel1 st check1 ks1 vs1 = Return (Some (f1, order1))
          \<and> find_flow fuel2 st check2 ks2 vs2 = Return (Some (f2, order2))
          \<longrightarrow> map_of f1 = map_of f2 \<and> order1 = order2
             \<and> list_all (\<lambda>v. flow_from_array st f1 v = flow_from_array st f2 v) (outputc st))
       \<and> (wf_labels st \<and> length (non_output_nodes st) < fuel
          \<longrightarrow> omap flow_view (find_flow fuel st sanity_check ks1 vs1)
              = omap flow_view (find_flow fuel st sanity_check ks2 vs2))"
proof -
  from assms(1,2) have keys: "set ks1 = set ks2" by (simp add: set_order_def)
  have a: "map_of f1 = map_of f2 \<and> order1 = order2
      \<and> list_all (\<lambda>v. flow_from_array st f1 v = flow_from_array st f2 v) (outputc st)"
    if r1: "find_flow fuel1 st check1 ks1 vs1 = Return (Some (f1, order1))"
    and r2: "find_flow fuel2 st check2 ks2 vs2 = Return (Some (f2, order2))"
  proof -
    let ?m = "max fuel1 fuel2"
    from find_flow_mono [of fuel1 ?m st False ks1 vs1] find_flow_without_check [OF r1]
    have m1: "find_flow ?m st False ks1 vs1 = Return (Some (f1, order1))"
      by (simp add: fuel_le_def)
    from find_flow_mono [of fuel2 ?m st False ks2 vs2] find_flow_without_check [OF r2]
    have m2: "find_flow ?m st False ks2 vs2 = Return (Some (f2, order2))"
      by (simp add: fuel_le_def)
    from find_flow_keys [OF keys, of ?m st False vs1] m1
    have "omap flow_view (find_flow ?m st False ks2 vs1) = Return (Some (map_of f1, order1))"
      by (simp add: flow_view_def)
    then obtain g where g: "find_flow ?m st False ks2 vs1 = Return (Some (g, order1))"
      "map_of g = map_of f1"
      by (rule flow_view_SomeD)
    from find_flow_Some_order [OF g(1) m2] g(2) have e: "map_of f1 = map_of f2" "order1 = order2"
      by simp_all
    then show ?thesis by (simp add: list_all_iff flow_from_array_keys [OF e(1)])
  qed
  have b: "omap flow_view (find_flow fuel st sanity_check ks1 vs1)
      = omap flow_view (find_flow fuel st sanity_check ks2 vs2)"
    if "wf_labels st" "length (non_output_nodes st) < fuel"
    using find_flow_order [OF that(1) assms(1,3,4) that(2), of sanity_check]
      find_flow_keys [OF keys, of fuel st sanity_check vs2]
    by simp
  from a b show ?thesis by blast
qed

theorem find_flow_deterministic_witness:
  "set_order path5 [0, 1, 2, 3] \<and> set_order path5 [3, 1, 0, 2]
   \<and> set_order path5 [1, 3, 2, 0] \<and> set_order path5 [2, 0, 3, 1]
   \<and> find_flow 5 path5 False [0, 1, 2, 3] [1, 3, 2, 0]
       = Return (Some ([(0, 1), (1, 2), (2, 3), (3, 4)], [0, 1, 2, 3, 4]))
   \<and> find_flow 8 path5 True [3, 1, 0, 2] [2, 0, 3, 1]
       = Return (Some ([(3, 4), (1, 2), (0, 1), (2, 3)], [0, 1, 2, 3, 4]))
   \<and> map_of ([(0, 1), (1, 2), (2, 3), (3, 4)] :: int dict) = map_of [(3, 4), (1, 2), (0, 1), (2, 3)]
   \<and> list_all (\<lambda>v. flow_from_array path5 [(0, 1), (1, 2), (2, 3), (3, 4)] v
                     = flow_from_array path5 [(3, 4), (1, 2), (0, 1), (2, 3)] v) (outputc path5)
   \<and> wf_labels path5 \<and> length (non_output_nodes path5) < 5
   \<and> omap flow_view (find_flow 5 path5 True [0, 1, 2, 3] [1, 3, 2, 0])
       = omap flow_view (find_flow 5 path5 True [3, 1, 0, 2] [2, 0, 3, 1])"
proof -
  have o: "set_order path5 [0, 1, 2, 3]" "set_order path5 [3, 1, 0, 2]"
    "set_order path5 [1, 3, 2, 0]" "set_order path5 [2, 0, 3, 1]"
    by code_simp+
  have a: "find_flow 5 path5 False [0, 1, 2, 3] [1, 3, 2, 0]
      = Return (Some ([(0, 1), (1, 2), (2, 3), (3, 4)], [0, 1, 2, 3, 4]))"
    by code_simp
  have b: "find_flow 8 path5 True [3, 1, 0, 2] [2, 0, 3, 1]
      = Return (Some ([(3, 4), (1, 2), (0, 1), (2, 3)], [0, 1, 2, 3, 4]))"
    by code_simp
  have w: "wf_labels path5" "length (non_output_nodes path5) < 5"
    by code_simp+
  note d = find_flow_deterministic [OF o, of 5 False "[(0, 1), (1, 2), (2, 3), (3, 4)]" "[0, 1, 2, 3, 4]"
      8 True "[(3, 4), (1, 2), (0, 1), (2, 3)]" "[0, 1, 2, 3, 4]" 5 True]
  note p = d [THEN conjunct1, THEN mp, OF conjI, OF a b]
  from p have m: "map_of ([(0, 1), (1, 2), (2, 3), (3, 4)] :: int dict) = map_of [(3, 4), (1, 2), (0, 1), (2, 3)]"
    by (rule conjunct1)
  from p have l: "list_all (\<lambda>v. flow_from_array path5 [(0, 1), (1, 2), (2, 3), (3, 4)] v
                     = flow_from_array path5 [(3, 4), (1, 2), (0, 1), (2, 3)] v) (outputc path5)"
    by (elim conjE)
  note q = d [THEN conjunct2, THEN mp, OF conjI, OF w]
  show ?thesis by (intro conjI o a b m l w q)
qed

text \<open>
  C7. Whenever \<^verbatim>\<open>find_flow\<close> returns a flow, the successor dictionary has an entry (one
  successor) for every non-output vertex, and following it from any input reaches an output
  within \<open>|V|\<close> steps. The keys of the dictionary are the set of line 77, inserted in the order
  \<open>ks\<close>; the order \<open>vs\<close> of the loop of line 96 is arbitrary.
\<close>

theorem chains_reach_output:
  assumes "find_flow fuel st sanity_check ks vs = Return (Some (f, top_order))"
    and "set_order st ks"
  shows "list_all (\<lambda>v. map_of f v \<noteq> None) (non_output_nodes st)
       \<and> list_all (\<lambda>i. steps_to_output st f (length (nodes (graph st))) i \<noteq> None) (input_nodes st)"
proof -
  let ?f0 = "map (\<lambda>v. (v, 0 :: int)) ks"
  from assms(1) obtain C P L where
    cover: "build_path_cover fuel st = Return (Fam C)"
    and chains: "get_chain_decomposition fuel st C ks = Return (f, P, L)"
    unfolding find_flow_def
    by (auto elim!: obind_ReturnE split: if_splits tau.splits option.splits prod.splits)
  from build_path_cover_edges_in [OF cover] have e: "edges_in st (Some C)" .
  from chains [unfolded get_chain_decomposition_def] chain_loop_paths
  have keep: "walk_keeps C ?f0 f"
    and paths: "\<forall>i\<in>set (input_nodes st). \<exists>p. chain_path st C i p \<and> (\<forall>u\<in>set (butlast p). agrees C f u)"
    by blast+
  have "map_of ?f0 v \<noteq> None" if "v \<in> set (non_output_nodes st)" for v
    using that set_order_non_outputs [OF assms(2)] by (simp add: map_of_const)
  with keep have keys: "list_all (\<lambda>v. map_of f v \<noteq> None) (non_output_nodes st)"
    by (simp add: walk_keeps_def list_all_iff)
  have "steps_to_output st f (length (nodes (graph st))) i \<noteq> None" if "i \<in> set (input_nodes st)" for i
  proof -
    from paths that obtain p where p: "chain_path st C i p" "\<forall>u\<in>set (butlast p). agrees C f u"
      by blast
    from chain_path_steps [OF p chain_path_length [OF e p(1)]] show ?thesis .
  qed
  with keys show ?thesis by (simp add: list_all_iff)
qed

theorem chains_reach_output_witness:
  "find_flow 5 path5 False [3, 1, 0, 2] [2, 0, 3, 1]
     = Return (Some ([(3, 4), (1, 2), (0, 1), (2, 3)], [0, 1, 2, 3, 4]))
   \<and> set_order path5 [3, 1, 0, 2]
   \<and> list_all (\<lambda>v. map_of ([(3, 4), (1, 2), (0, 1), (2, 3)] :: int dict) v \<noteq> None) (non_output_nodes path5)
   \<and> list_all (\<lambda>i. steps_to_output path5 [(3, 4), (1, 2), (0, 1), (2, 3)] (length (nodes (graph path5))) i \<noteq> None)
        (input_nodes path5)
   \<and> length (nodes (graph path5)) = 5
   \<and> steps_to_output path5 [(3, 4), (1, 2), (0, 1), (2, 3)] 5 0 = Some 4"
proof -
  have h: "find_flow 5 path5 False [3, 1, 0, 2] [2, 0, 3, 1]
      = Return (Some ([(3, 4), (1, 2), (0, 1), (2, 3)], [0, 1, 2, 3, 4]))"
    by code_simp
  have o: "set_order path5 [3, 1, 0, 2]" by code_simp
  have n: "length (nodes (graph path5)) = 5"
    and s: "steps_to_output path5 [(3, 4), (1, 2), (0, 1), (2, 3)] 5 0 = Some 4"
    by code_simp+
  from chains_reach_output [OF h o] h o n s show ?thesis by blast
qed

end
